theory Spec2Isabelle
  imports Main
begin

section \<open>Characters and C strings\<close>

text \<open>
  A C string is modelled by the list of its characters before the terminating NUL.
  A text file is the list of its bytes; a byte of a file may be NUL.
\<close>

definition NUL :: char where
  "NUL = CHR 0x00"

definition NL :: char where
  "NL = CHR 0x0A"

definition SP :: char where
  "SP = CHR '' ''"

definition HASH :: char where
  "HASH = CHR ''#''"

definition MAX_LINE_LENGTH :: nat where
  "MAX_LINE_LENGTH = 4096"

definition MAX_STATES :: int where
  "MAX_STATES = 256"

definition MAX_SYMBOLS :: int where
  "MAX_SYMBOLS = 256"

text \<open>The white-space characters of the C locale, which the \<open>%s\<close> conversion skips.\<close>

definition isspace :: "char \<Rightarrow> bool" where
  "isspace c = (c = SP \<or> c = CHR 0x09 \<or> c = CHR 0x0A \<or> c = CHR 0x0B
                \<or> c = CHR 0x0C \<or> c = CHR 0x0D)"

section \<open>The line source: \<open>GetLine\<close>\<close>

text \<open>
  An open stream: the bytes not yet read and the end-of-file indicator, which a read
  sets when it tries to read past the last byte.
\<close>

record FILE =
  unread :: "char list"
  eof :: bool

text \<open>
  \<open>fgets_chars n cs\<close> reads at most \<open>n\<close> characters of \<open>cs\<close>, stopping after a
  newline; it returns the characters read, the rest, and whether the end was hit.
\<close>

fun fgets_chars :: "nat \<Rightarrow> char list \<Rightarrow> char list \<times> char list \<times> bool" where
  "fgets_chars n [] = ([], [], 0 < n)"
| "fgets_chars n (c # cs) =
     (if n = 0 then ([], c # cs, False)
      else if c = NL then ([c], cs, False)
      else (case fgets_chars (n - 1) cs of (l, r, e) \<Rightarrow> (c # l, r, e)))"

text \<open>\<open>fgets(line, n, f)\<close>: \<open>None\<close> is the NULL result (nothing could be read).\<close>

definition fgets :: "nat \<Rightarrow> FILE \<Rightarrow> string option \<times> FILE" where
  "fgets n f =
     (case fgets_chars (n - 1) (unread f) of
        (l, r, e) \<Rightarrow>
          (if l = [] then None else Some l, f\<lparr>unread := r, eof := eof f \<or> e\<rparr>))"

definition feof :: "FILE \<Rightarrow> bool" where
  "feof f = eof f"

text \<open>The first character of the buffer that holds \<open>line\<close> followed by NUL.\<close>

definition first_char :: "string \<Rightarrow> char" where
  "first_char line = (case line of [] \<Rightarrow> NUL | c # _ \<Rightarrow> c)"

text \<open>The C string held by a buffer: its characters before the first NUL.\<close>

definition c_str :: "char list \<Rightarrow> string" where
  "c_str buf = takeWhile (\<lambda>c. c \<noteq> NUL) buf"

lemma fgets_chars_length:
  "fgets_chars n cs = (l, r, e) \<Longrightarrow> length l + length r = length cs"
proof (induction cs arbitrary: n l r e)
  case Nil
  then show ?case by simp
next
  case (Cons c cs)
  show ?case
  proof (cases "n = 0 \<or> c = NL")
    case True
    with Cons.prems show ?thesis by (auto split: if_splits)
  next
    case False
    obtain l' r' e' where rec: "fgets_chars (n - 1) cs = (l', r', e')"
      by (cases "fgets_chars (n - 1) cs") auto
    with False Cons.prems have "l = c # l'" "r = r'" by auto
    with Cons.IH[OF rec] show ?thesis by simp
  qed
qed

lemma fgets_consumes:
  "fgets n f = (Some line, f') \<Longrightarrow> length (unread f') < length (unread f)"
proof -
  assume a: "fgets n f = (Some line, f')"
  obtain l r e where c: "fgets_chars (n - 1) (unread f) = (l, r, e)"
    by (cases "fgets_chars (n - 1) (unread f)") auto
  with a have "l \<noteq> []" "unread f' = r"
    by (auto simp: fgets_def split: if_splits)
  with fgets_chars_length[OF c] show ?thesis by (cases l) auto
qed

text \<open>
  The \<open>do ... while\<close> loop of \<open>GetLine\<close>: read lines until one does not start with
  NUL, newline or \<open>#\<close>, or until the end-of-file indicator is set.
\<close>

function GetLine_loop :: "FILE \<Rightarrow> string option \<times> FILE" where
  "GetLine_loop f =
     (case fgets MAX_LINE_LENGTH f of
        (None, f') \<Rightarrow> (None, f')
      | (Some line, f') \<Rightarrow>
          if \<not> feof f' \<and> (first_char line = NUL \<or> first_char line = NL
                            \<or> first_char line = HASH)
          then GetLine_loop f'
          else (Some line, f'))"
  by pat_completeness auto
termination
  by (relation "measure (\<lambda>f. length (unread f))") (auto dest: fgets_consumes [OF sym])

declare GetLine_loop.simps [simp del]

definition GetLine :: "FILE \<Rightarrow> string option \<times> FILE" where
  "GetLine f =
     (case GetLine_loop f of
        (None, f') \<Rightarrow> (None, f')
      | (Some line, f') \<Rightarrow>
          if feof f' then (None, f')
          else
            let nextlinePos = int (length (c_str line)) - 1 in
            if nextlinePos \<le> 0 then (None, f')
            else if c_str line ! nat nextlinePos = NL
              then (Some (take (nat nextlinePos) (c_str line)), f')
              else (Some (c_str line), f'))"

section \<open>The tokenizer: \<open>ReadWord\<close>\<close>

text \<open>
  \<open>sscanf(str, "%s", word)\<close>: skip white space, then read the characters up to the
  next white space. \<open>None\<close> when the string ends before a character is read (the call
  then does not return 1).
\<close>

definition sscanf_s :: "string \<Rightarrow> string option" where
  "sscanf_s str =
     (let word = takeWhile (\<lambda>c. \<not> isspace c) (dropWhile isspace str)
      in if word = [] then None else Some word)"

text \<open>\<open>ReadWord\<close> returns the word read and the pointer to the rest; \<open>None\<close> is NULL.\<close>

definition ReadWord :: "string \<Rightarrow> (string \<times> string) option" where
  "ReadWord str =
     (case sscanf_s str of
        None \<Rightarrow> None
      | Some word \<Rightarrow>
          Some (word, dropWhile (\<lambda>c. c = SP) (dropWhile (\<lambda>c. c \<noteq> SP) str)))"

lemma ReadWord_shorter:
  "ReadWord str = Some (word, rest) \<Longrightarrow> length rest < length str"
proof -
  assume a: "ReadWord str = Some (word, rest)"
  then obtain c cs where s: "str = c # cs"
    by (cases str) (auto simp: ReadWord_def sscanf_s_def split: option.splits)
  from a have r: "rest = dropWhile (\<lambda>c. c = SP) (dropWhile (\<lambda>c. c \<noteq> SP) str)"
    by (auto simp: ReadWord_def split: option.splits)
  show ?thesis
  proof (cases "c = SP")
    case True
    with r s have "rest = dropWhile (\<lambda>c. c = SP) cs" by simp
    then have "length rest \<le> length cs" by (simp add: length_dropWhile_le)
    with s show ?thesis by simp
  next
    case False
    with r s have "rest = dropWhile (\<lambda>c. c = SP) (dropWhile (\<lambda>c. c \<noteq> SP) cs)" by simp
    then have "length rest \<le> length (dropWhile (\<lambda>c. c \<noteq> SP) cs)"
      by (simp add: length_dropWhile_le)
    also have "\<dots> \<le> length cs" by (simp add: length_dropWhile_le)
    finally show ?thesis using s by simp
  qed
qed

text \<open>
  The loop \<open>while ((str = ReadWord(str, word)) != NULL)\<close> that every tokenised section
  of the loader runs: the words it sees, in order.
\<close>

function ReadWords :: "string \<Rightarrow> string list" where
  "ReadWords str =
     (case ReadWord str of
        None \<Rightarrow> []
      | Some (word, rest) \<Rightarrow> word # ReadWords rest)"
  by pat_completeness auto
termination
  by (relation "measure length") (auto simp: ReadWord_shorter)

declare ReadWords.simps [simp del]

lemma GetLine_loop_consumes:
  "GetLine_loop f = (Some line, f') \<Longrightarrow> length (unread f') < length (unread f)"
proof (induction f rule: GetLine_loop.induct)
  case (1 f)
  obtain r g where fg: "fgets MAX_LINE_LENGTH f = (r, g)"
    by (cases "fgets MAX_LINE_LENGTH f") auto
  show ?case
  proof (cases r)
    case None
    with fg "1.prems" show ?thesis by (simp add: GetLine_loop.simps)
  next
    case (Some l)
    note g = fgets_consumes[OF fg[unfolded Some]]
    show ?thesis
    proof (cases "\<not> feof g \<and> (first_char l = NUL \<or> first_char l = NL \<or> first_char l = HASH)")
      case True
      with fg Some "1.prems" have "GetLine_loop g = (Some line, f')"
        by (simp add: GetLine_loop.simps[of f])
      from "1.IH"[OF fg[symmetric] Some[THEN arg_cong[of _ _ id], simplified] True this] g
      show ?thesis by simp
    next
      case False
      with fg Some "1.prems" have "f' = g"
        by (auto simp: GetLine_loop.simps[of f])
      with g show ?thesis by simp
    qed
  qed
qed

lemma GetLine_consumes:
  "GetLine f = (Some line, f') \<Longrightarrow> length (unread f') < length (unread f)"
proof -
  assume a: "GetLine f = (Some line, f')"
  obtain r g where l: "GetLine_loop f = (r, g)"
    by (cases "GetLine_loop f") auto
  with a obtain l' where "r = Some l'" "f' = g"
    by (cases r) (auto simp: GetLine_def Let_def split: if_splits)
  with l GetLine_loop_consumes show ?thesis by blast
qed

section \<open>The automaton\<close>

text \<open>
  The arrays of fixed capacity (\<open>statesNames\<close>, \<open>finishState\<close>, \<open>transitions\<close>) are
  functions from the index to the element; the loader checks the capacity where it
  writes a new element. The transition table is allocated by the loader, so it is a list
  of rows, each a list, with the bounds it was allocated with.
\<close>

record Automaton =
  statesNames :: "int \<Rightarrow> string"
  statesNum :: int
  finishState :: "int \<Rightarrow> int"
  startStateIndex :: int
  transitions :: "int \<Rightarrow> char"
  transitionsNum :: int
  transitionTable :: "int list list"

text \<open>The loop of \<open>StateToIdx\<close>, from index \<open>i\<close> on.\<close>

function StateToIdx_from :: "Automaton \<Rightarrow> string \<Rightarrow> int \<Rightarrow> int" where
  "StateToIdx_from a state i =
     (if i < statesNum a
      then (if state = statesNames a i then i else StateToIdx_from a state (i + 1))
      else - 1)"
  by pat_completeness auto
termination
  by (relation "measure (\<lambda>(a, state, i). nat (statesNum a - i))") auto

declare StateToIdx_from.simps [simp del]

definition StateToIdx :: "Automaton \<Rightarrow> string \<Rightarrow> int" where
  "StateToIdx a state = StateToIdx_from a state 0"

text \<open>The loop of \<open>TransitionToIdx\<close>, from index \<open>i\<close> on.\<close>

function TransitionToIdx_from :: "Automaton \<Rightarrow> char \<Rightarrow> int \<Rightarrow> int" where
  "TransitionToIdx_from a transition i =
     (if i < transitionsNum a
      then (if transition = transitions a i then i
            else TransitionToIdx_from a transition (i + 1))
      else - 1)"
  by pat_completeness auto
termination
  by (relation "measure (\<lambda>(a, transition, i). nat (transitionsNum a - i))") auto

declare TransitionToIdx_from.simps [simp del]

definition TransitionToIdx :: "Automaton \<Rightarrow> char \<Rightarrow> int" where
  "TransitionToIdx a transition = TransitionToIdx_from a transition 0"

text \<open>
  Reading and writing \<open>transitionTable[i][j]\<close>. \<open>None\<close>: the access is outside the
  allocated table, where the C program has no defined behaviour.
\<close>

definition table_get :: "int list list \<Rightarrow> int \<Rightarrow> int \<Rightarrow> int option" where
  "table_get t i j =
     (if 0 \<le> i \<and> nat i < length t \<and> 0 \<le> j \<and> nat j < length (t ! nat i)
      then Some (t ! nat i ! nat j) else None)"

definition table_set :: "int list list \<Rightarrow> int \<Rightarrow> int \<Rightarrow> int \<Rightarrow> int list list" where
  "table_set t i j v = t[nat i := (t ! nat i)[nat j := v]]"

section \<open>The simulation: \<open>ProcessString\<close>\<close>

text \<open>
  The string is given by its characters before the terminating NUL, so that \<open>strlen\<close>
  is the length of the list and both loops run over the list. The results are 0
  (accepted), 1 (rejected) and 2 (wrong symbol).

  The first loop: is there a character that \<open>TransitionToIdx\<close> does not find?
\<close>

fun ProcessString_check :: "Automaton \<Rightarrow> string \<Rightarrow> bool" where
  "ProcessString_check a [] = False"
| "ProcessString_check a (c # cs) =
     (if TransitionToIdx a c = - 1 then True else ProcessString_check a cs)"

text \<open>
  The second loop and the final test, from \<open>currentState\<close> on the characters left.
  \<open>None\<close>: the program reads outside the transition table or outside \<open>finishState\<close>.
\<close>

fun ProcessString_run :: "Automaton \<Rightarrow> int \<Rightarrow> string \<Rightarrow> int option" where
  "ProcessString_run a currentState [] =
     (if 0 \<le> currentState \<and> currentState < MAX_STATES
      then Some (if finishState a currentState \<noteq> 0 then 0 else 1)
      else None)"
| "ProcessString_run a currentState (c # cs) =
     (let curSymbolIdx = TransitionToIdx a c in
      case table_get (transitionTable a) currentState curSymbolIdx of
        None \<Rightarrow> None
      | Some nextState \<Rightarrow>
          if nextState = - 1 \<or> nextState \<ge> statesNum a then Some 1
          else ProcessString_run a nextState cs)"

definition ProcessString :: "Automaton \<Rightarrow> string \<Rightarrow> int option" where
  "ProcessString a string =
     (if ProcessString_check a string then Some 2
      else ProcessString_run a (startStateIndex a) string)"

section \<open>The loader: \<open>LoadAutomaton\<close>\<close>

text \<open>The messages that \<open>LoadAutomaton\<close> prints on \<open>stderr\<close> before it returns 1.\<close>

datatype message =
    CannotOpen
  | NoInitialState
  | NoStates
  | StartNotListed
  | NoSymbols
  | SymbolTwice
  | NoFinishStates
  | FinishNotListed
  | DuplicatedFinish
  | InvalidTransition
  | DuplicateTransition

text \<open>
  What a part of the loader ends with. \<open>Failed m a\<close>: it printed \<open>m\<close> and returned 1,
  leaving the caller's structure as \<open>a\<close>. \<open>Ok x\<close>: it went through, with \<open>x\<close> (for the
  whole loader: it returned 0, and \<open>x\<close> is the caller's structure). \<open>Undefined\<close>: it
  wrote past the end of an array or read a buffer that was never written, where the C
  program has no defined behaviour.
\<close>

datatype 'a outcome = Undefined | Failed message Automaton | Ok 'a

type_synonym result = "Automaton outcome"

definition return_code :: "result \<Rightarrow> int option" where
  "return_code r = (case r of Undefined \<Rightarrow> None | Failed m a \<Rightarrow> Some 1 | Ok a \<Rightarrow> Some 0)"

text \<open>The loop that stores the state names (source lines 151 to 155).\<close>

function LoadStates :: "Automaton \<Rightarrow> string \<Rightarrow> result" where
  "LoadStates a states =
     (case ReadWord states of
        None \<Rightarrow> Ok a
      | Some (curState, rest) \<Rightarrow>
          if 0 \<le> statesNum a \<and> statesNum a < MAX_STATES
          then LoadStates
                 (a\<lparr>statesNames := (statesNames a)(statesNum a := curState),
                    statesNum := statesNum a + 1\<rparr>) rest
          else Undefined)"
  by pat_completeness auto
termination
  by (relation "measure (\<lambda>(a, states). length states)") (auto simp: ReadWord_shorter)

declare LoadStates.simps [simp del]

text \<open>The loop that looks for \<open>c\<close> among the symbols stored so far (lines 179 to 184).\<close>

function symbol_occurs :: "Automaton \<Rightarrow> char \<Rightarrow> int \<Rightarrow> bool" where
  "symbol_occurs a c t =
     (if t < transitionsNum a
      then (if transitions a t = c then True else symbol_occurs a c (t + 1))
      else False)"
  by pat_completeness auto
termination
  by (relation "measure (\<lambda>(a, c, t). nat (transitionsNum a - t))") auto

declare symbol_occurs.simps [simp del]

text \<open>The loop that stores the symbols (lines 174 to 188).\<close>

function LoadSymbols :: "Automaton \<Rightarrow> string \<Rightarrow> result" where
  "LoadSymbols a str =
     (case ReadWord str of
        None \<Rightarrow> Ok a
      | Some (curSymbol, rest) \<Rightarrow>
          let c = first_char curSymbol in
          if symbol_occurs a c 0 then Failed SymbolTwice a
          else if 0 \<le> transitionsNum a \<and> transitionsNum a < MAX_SYMBOLS
          then LoadSymbols
                 (a\<lparr>transitions := (transitions a)(transitionsNum a := c),
                    transitionsNum := transitionsNum a + 1\<rparr>) rest
          else Undefined)"
  by pat_completeness auto
termination
  by (relation "measure (\<lambda>(a, str). length str)") (auto simp: ReadWord_shorter)

declare LoadSymbols.simps [simp del]

text \<open>The loop that clears \<open>finishState\<close> (lines 192 and 193).\<close>

function clear_finish :: "Automaton \<Rightarrow> int \<Rightarrow> Automaton" where
  "clear_finish a i =
     (if i < statesNum a
      then clear_finish (a\<lparr>finishState := (finishState a)(i := 0)\<rparr>) (i + 1)
      else a)"
  by pat_completeness auto
termination
  by (relation "measure (\<lambda>(a, i). nat (statesNum a - i))") auto

declare clear_finish.simps [simp del]

text \<open>The loop that marks the finishing states (lines 202 to 217).\<close>

function LoadFinish :: "Automaton \<Rightarrow> string \<Rightarrow> result" where
  "LoadFinish a finishStates =
     (case ReadWord finishStates of
        None \<Rightarrow> Ok a
      | Some (curState, rest) \<Rightarrow>
          let idx = StateToIdx a curState in
          if idx = - 1 then Failed FinishNotListed a
          else if finishState a idx = 1 then Failed DuplicatedFinish a
          else LoadFinish (a\<lparr>finishState := (finishState a)(idx := 1)\<rparr>) rest)"
  by pat_completeness auto
termination
  by (relation "measure (\<lambda>(a, finishStates). length finishStates)")
     (auto simp: ReadWord_shorter)

declare LoadFinish.simps [simp del]

text \<open>The allocation of the transition table, every entry \<open>-1\<close> (lines 220 to 225).\<close>

definition init_table :: "Automaton \<Rightarrow> Automaton" where
  "init_table a =
     a\<lparr>transitionTable :=
         replicate (nat (statesNum a)) (replicate (nat (transitionsNum a)) (- 1))\<rparr>"

text \<open>
  \<open>sscanf(transitionLine, "%s %s %s", from, symb, to)\<close>. \<open>None\<close>: the line has fewer
  than three words, so that one of the three buffers is never written.
\<close>

definition after_word :: "string \<Rightarrow> string" where
  "after_word str = dropWhile (\<lambda>c. \<not> isspace c) (dropWhile isspace str)"

definition sscanf_sss :: "string \<Rightarrow> (string \<times> string \<times> string) option" where
  "sscanf_sss str =
     (case sscanf_s str of
        None \<Rightarrow> None
      | Some from \<Rightarrow>
          (case sscanf_s (after_word str) of
             None \<Rightarrow> None
           | Some symb \<Rightarrow>
               (case sscanf_s (after_word (after_word str)) of
                  None \<Rightarrow> None
                | Some to \<Rightarrow> Some (from, symb, to))))"

text \<open>
  The body of the loop over the transition lines (lines 230 to 252). The return code of
  \<open>sscanf\<close> is not looked at: with fewer than three words the program goes on with
  buffers that were never written.
\<close>

definition LoadTransition :: "Automaton \<Rightarrow> string \<Rightarrow> result" where
  "LoadTransition a transitionLine =
     (case sscanf_sss transitionLine of
        None \<Rightarrow> Undefined
      | Some (from, symb, to) \<Rightarrow>
          let fromIdx = StateToIdx a from;
              symbolIdx = TransitionToIdx a (first_char symb);
              toIdx = StateToIdx a to
          in
          if fromIdx = - 1 \<or> symbolIdx = - 1 \<or> toIdx = - 1
          then Failed InvalidTransition a
          else
            (case table_get (transitionTable a) fromIdx symbolIdx of
               None \<Rightarrow> Undefined
             | Some t \<Rightarrow>
                 if t \<noteq> - 1 then Failed DuplicateTransition a
                 else Ok (a\<lparr>transitionTable :=
                             table_set (transitionTable a) fromIdx symbolIdx toIdx\<rparr>)))"

text \<open>The loop over the transition lines (lines 229 to 253), and the final \<open>return 0\<close>.\<close>

function LoadTransitions :: "Automaton \<Rightarrow> FILE \<Rightarrow> result" where
  "LoadTransitions a f =
     (case GetLine f of
        (None, f') \<Rightarrow> Ok a
      | (Some transitionLine, f') \<Rightarrow>
          (case LoadTransition a transitionLine of
             Undefined \<Rightarrow> Undefined
           | Failed m a' \<Rightarrow> Failed m a'
           | Ok a' \<Rightarrow> LoadTransitions a' f'))"
  by pat_completeness auto
termination
  by (relation "measure (\<lambda>(a, f). length (unread f))")
     (auto dest: GetLine_consumes [OF sym])

declare LoadTransitions.simps [simp del]

text \<open>\<open>fopen(path, "r")\<close> on a file with the given bytes.\<close>

definition fopen :: "char list \<Rightarrow> FILE" where
  "fopen bytes = \<lparr>unread = bytes, eof = False\<rparr>"

text \<open>
  \<open>LoadAutomaton a path\<close> up to the allocation of the transition table (lines 119 to
  225). The file at \<open>path\<close> is given by its bytes, or by \<open>None\<close> when it cannot be
  opened. The structure \<open>a0\<close> is the caller's, written in place: a failure holds what it
  is when the function returns. \<open>Ok (a, f)\<close>: the structure and the stream with which
  the loop over the transition lines starts.
\<close>

definition LoadHeader :: "Automaton \<Rightarrow> char list option \<Rightarrow> (Automaton \<times> FILE) outcome" where
  "LoadHeader a0 path =
     (let a = a0\<lparr>statesNum := 0, transitionsNum := 0\<rparr> in
      case path of
        None \<Rightarrow> Failed CannotOpen a
      | Some bytes \<Rightarrow>
     (case GetLine (fopen bytes) of
        (None, f) \<Rightarrow> Failed NoInitialState a
      | (Some initialState, f) \<Rightarrow>
     (case GetLine f of
        (None, f) \<Rightarrow> Failed NoStates a
      | (Some states, f) \<Rightarrow>
     (case LoadStates a states of
        Undefined \<Rightarrow> Undefined
      | Failed m a \<Rightarrow> Failed m a
      | Ok a \<Rightarrow>
     (let a = a\<lparr>startStateIndex := StateToIdx a initialState\<rparr> in
      if startStateIndex a = - 1 then Failed StartNotListed a
      else
     (case GetLine f of
        (None, f) \<Rightarrow> Failed NoSymbols a
      | (Some symbols, f) \<Rightarrow>
     (case LoadSymbols a symbols of
        Undefined \<Rightarrow> Undefined
      | Failed m a \<Rightarrow> Failed m a
      | Ok a \<Rightarrow>
     (let a = clear_finish a 0 in
      case GetLine f of
        (None, f) \<Rightarrow> Failed NoFinishStates a
      | (Some finishStates, f) \<Rightarrow>
     (case LoadFinish a finishStates of
        Undefined \<Rightarrow> Undefined
      | Failed m a \<Rightarrow> Failed m a
      | Ok a \<Rightarrow> Ok (init_table a, f))))))))))"

text \<open>\<open>LoadAutomaton a path\<close>: the part above, then the loop over the transition lines.\<close>

definition LoadAutomaton :: "Automaton \<Rightarrow> char list option \<Rightarrow> result" where
  "LoadAutomaton a0 path =
     (case LoadHeader a0 path of
        Undefined \<Rightarrow> Undefined
      | Failed m a \<Rightarrow> Failed m a
      | Ok (a, f) \<Rightarrow> LoadTransitions a f)"

section \<open>The driver: \<open>main\<close>\<close>

text \<open>
  What \<open>main\<close> prints on the standard output after the two prompts: one line for each
  string it has processed, or the message that the strings file cannot be opened.
\<close>

datatype printed =
    ACCEPTED_LINE string
  | REJECTED_LINE string
  | WRONG_SYMBOL string
  | UNKNOWN_ERROR string
  | CANNOT_OPEN_STRINGS

text \<open>The \<open>switch\<close> on the result of \<open>ProcessString\<close> (lines 366 to 382).\<close>

definition report :: "int \<Rightarrow> string \<Rightarrow> printed list" where
  "report res line =
     (if res = 0 then [ACCEPTED_LINE line]
      else if res = 1 then [REJECTED_LINE line]
      else if res = 2 then [WRONG_SYMBOL line]
      else if res = 3 then [UNKNOWN_ERROR line]
      else [])"

text \<open>
  The loop over the lines of the strings file (lines 364 to 383). \<open>None\<close>: a call of
  \<open>ProcessString\<close> has no defined behaviour.
\<close>

function main_loop :: "Automaton \<Rightarrow> FILE \<Rightarrow> printed list option" where
  "main_loop a f =
     (case GetLine f of
        (None, f') \<Rightarrow> Some []
      | (Some line, f') \<Rightarrow>
          (case ProcessString a line of
             None \<Rightarrow> None
           | Some res \<Rightarrow>
               (case main_loop a f' of
                  None \<Rightarrow> None
                | Some out \<Rightarrow> Some (report res line @ out))))"
  by pat_completeness auto
termination
  by (relation "measure (\<lambda>(a, f). length (unread f))")
     (auto dest: GetLine_consumes [OF sym])

declare main_loop.simps [simp del]

text \<open>
  \<open>main\<close>, after the two paths are read: the exit status and the lines printed. The
  two files are given by their bytes, or by \<open>None\<close> when they cannot be opened; \<open>a0\<close>
  is the content of the local variable \<open>a\<close>, which \<open>main\<close> does not initialise.
\<close>

definition main :: "Automaton \<Rightarrow> char list option \<Rightarrow> char list option
    \<Rightarrow> (int \<times> printed list) option" where
  "main a0 automatonPath stringPath =
     (case LoadAutomaton a0 automatonPath of
        Undefined \<Rightarrow> None
      | Failed m a \<Rightarrow> Some (1, [])
      | Ok a \<Rightarrow>
          (case stringPath of
             None \<Rightarrow> Some (1, [CANNOT_OPEN_STRINGS])
           | Some bytes \<Rightarrow>
               (case main_loop a (fopen bytes) of
                  None \<Rightarrow> None
                | Some out \<Rightarrow> Some (0, out))))"

section \<open>The data model of the specification\<close>

definition symbols :: "Automaton \<Rightarrow> char list" where
  "symbols a = map (transitions a) [0..transitionsNum a - 1]"

definition names :: "Automaton \<Rightarrow> string list" where
  "names a = map (statesNames a) [0..statesNum a - 1]"

definition finalStates :: "Automaton \<Rightarrow> int set" where
  "finalStates a = {i. 0 \<le> i \<and> i < statesNum a \<and> finishState a i = 1}"

definition header_ok :: "Automaton \<Rightarrow> bool" where
  "header_ok a =
     (0 \<le> statesNum a \<and> statesNum a \<le> MAX_STATES
      \<and> 0 \<le> transitionsNum a \<and> transitionsNum a \<le> MAX_SYMBOLS
      \<and> 0 \<le> startStateIndex a \<and> startStateIndex a < statesNum a
      \<and> (\<forall>i. 0 \<le> i \<and> i < statesNum a \<longrightarrow> finishState a i = 0 \<or> finishState a i = 1))"

definition table_ok :: "Automaton \<Rightarrow> bool" where
  "table_ok a =
     (length (transitionTable a) = nat (statesNum a)
      \<and> (\<forall>row \<in> set (transitionTable a).
            length row = nat (transitionsNum a)
            \<and> (\<forall>t \<in> set row. t = - 1 \<or> (0 \<le> t \<and> t < statesNum a))))"

definition wf_automaton :: "Automaton \<Rightarrow> bool" where
  "wf_automaton a = (header_ok a \<and> table_ok a)"

definition delta :: "Automaton \<Rightarrow> int \<Rightarrow> char \<Rightarrow> int option" where
  "delta a q c =
     (case table_get (transitionTable a) q (TransitionToIdx a c) of
        None \<Rightarrow> None
      | Some t \<Rightarrow> if t = - 1 then None else Some t)"

fun fold_delta :: "Automaton \<Rightarrow> int \<Rightarrow> string \<Rightarrow> int option" where
  "fold_delta a q [] = Some q"
| "fold_delta a q (c # cs) =
     (case delta a q c of None \<Rightarrow> None | Some q' \<Rightarrow> fold_delta a q' cs)"

section \<open>An automaton file and the automaton it loads\<close>

text \<open>A structure to load into, and the file of the automaton that accepts the binary
  strings with an even number of \<open>1\<close>.\<close>

definition blank :: Automaton where
  "blank = \<lparr>statesNames = (\<lambda>i. []), statesNum = 0, finishState = (\<lambda>i. 0),
            startStateIndex = 0, transitions = (\<lambda>i. NUL), transitionsNum = 0,
            transitionTable = []\<rparr>"

definition even_file :: "char list" where
  "even_file = ''even'' @ [NL] @ ''even odd'' @ [NL] @ ''0 1'' @ [NL] @ ''even'' @ [NL]
     @ ''even 0 even'' @ [NL] @ ''even 1 odd'' @ [NL] @ ''odd 0 odd'' @ [NL]
     @ ''odd 1 even'' @ [NL]"

definition even_dfa :: Automaton where
  "even_dfa = \<lparr>statesNames = (\<lambda>i. [])(0 := ''even'', 1 := ''odd''), statesNum = 2,
       finishState = (\<lambda>i. 0)(0 := 1), startStateIndex = 0,
       transitions = (\<lambda>i. NUL)(0 := CHR ''0'', 1 := CHR ''1''), transitionsNum = 2,
       transitionTable = [[0, 1], [1, 0]]\<rparr>"

text \<open>A file with one transition only, and the automaton it loads: from the state \<open>q\<close>
  there is no transition at all.\<close>

definition partial_file :: "char list" where
  "partial_file = ''p'' @ [NL] @ ''p q'' @ [NL] @ ''a b'' @ [NL] @ ''q'' @ [NL]
     @ ''p a q'' @ [NL]"

definition partial_dfa :: Automaton where
  "partial_dfa = \<lparr>statesNames = (\<lambda>i. [])(0 := ''p'', 1 := ''q''), statesNum = 2,
       finishState = (\<lambda>i. 0)(1 := 1), startStateIndex = 0,
       transitions = (\<lambda>i. NUL)(0 := CHR ''a'', 1 := CHR ''b''), transitionsNum = 2,
       transitionTable = [[1, - 1], [- 1, - 1]]\<rparr>"

text \<open>A file that lists the state name \<open>q0\<close> twice, and the automaton it loads.\<close>

definition dup_names_file :: "char list" where
  "dup_names_file = ''q0'' @ [NL] @ ''q0 q1 q0'' @ [NL] @ ''a'' @ [NL] @ ''q0'' @ [NL]
     @ ''q0 a q1'' @ [NL]"


text \<open>
  A file that gives the transition from \<open>p\<close> on \<open>a\<close> twice; the structure and the
  stream after its first four lines; the structure when the loader returns.
\<close>

definition dup_trans_file :: "char list" where
  "dup_trans_file = ''p'' @ [NL] @ ''p q'' @ [NL] @ ''a'' @ [NL] @ ''q'' @ [NL]
     @ ''p a q'' @ [NL] @ ''p a p'' @ [NL]"

definition dup_trans_header :: Automaton where
  "dup_trans_header = \<lparr>statesNames = (\<lambda>i. [])(0 := ''p'', 1 := ''q''), statesNum = 2,
       finishState = (\<lambda>i. 0)(1 := 1), startStateIndex = 0,
       transitions = (\<lambda>i. NUL)(0 := CHR ''a''), transitionsNum = 1,
       transitionTable = [[- 1], [- 1]]\<rparr>"

definition dup_trans_stream :: FILE where
  "dup_trans_stream = \<lparr>unread = ''p a q'' @ [NL] @ ''p a p'' @ [NL], eof = False\<rparr>"

definition dup_trans_dfa :: Automaton where
  "dup_trans_dfa = dup_trans_header\<lparr>transitionTable := [[1], [- 1]]\<rparr>"

text \<open>A file that ends after the line of the state names, and the structure when the
  loader returns.\<close>

definition short_file :: "char list" where
  "short_file = ''q0'' @ [NL] @ ''q0 q1'' @ [NL]"

definition short_dfa :: Automaton where
  "short_dfa = blank\<lparr>statesNames := (\<lambda>i. [])(0 := ''q0'', 1 := ''q1''), statesNum := 2\<rparr>"

text \<open>A file whose start state is not among its state names, and the structure when
  the loader returns.\<close>

definition nostart_file :: "char list" where
  "nostart_file = ''x'' @ [NL] @ ''q0 q1'' @ [NL] @ ''a'' @ [NL]"

definition nostart_dfa :: Automaton where
  "nostart_dfa = blank\<lparr>statesNames := (\<lambda>i. [])(0 := ''q0'', 1 := ''q1''), statesNum := 2,
     startStateIndex := - 1\<rparr>"

section \<open>The transition lines of a file\<close>

text \<open>The lines that \<open>GetLine\<close> yields from a stream until it returns NULL.\<close>

function GetLines :: "FILE \<Rightarrow> string list" where
  "GetLines f =
     (case GetLine f of
        (None, f') \<Rightarrow> []
      | (Some line, f') \<Rightarrow> line # GetLines f')"
  by pat_completeness auto
termination
  by (relation "measure (\<lambda>f. length (unread f))") (auto dest: GetLine_consumes [OF sym])

declare GetLines.simps [simp del]

text \<open>The body of the loop over the transition lines, run on a list of lines.\<close>

fun LoadLines :: "Automaton \<Rightarrow> string list \<Rightarrow> result" where
  "LoadLines a [] = Ok a"
| "LoadLines a (l # ls) =
     (case LoadTransition a l of
        Undefined \<Rightarrow> Undefined
      | Failed m a' \<Rightarrow> Failed m a'
      | Ok a' \<Rightarrow> LoadLines a' ls)"

text \<open>
  The indices (from, symbol, to) that a transition line stands for: \<open>None\<close> when the
  line has fewer than three words, or when a state name or the symbol is not found.
\<close>

definition resolve :: "Automaton \<Rightarrow> string \<Rightarrow> (int \<times> int \<times> int) option" where
  "resolve a l =
     (case sscanf_sss l of
        None \<Rightarrow> None
      | Some (from, symb, to) \<Rightarrow>
          if StateToIdx a from = - 1 \<or> TransitionToIdx a (first_char symb) = - 1
             \<or> StateToIdx a to = - 1
          then None
          else Some (StateToIdx a from, TransitionToIdx a (first_char symb),
                     StateToIdx a to))"

text \<open>The (from, symbol) pair of a transition line.\<close>

definition pair_of :: "Automaton \<Rightarrow> string \<Rightarrow> (int \<times> int) option" where
  "pair_of a l = (case resolve a l of None \<Rightarrow> None | Some (i, j, k) \<Rightarrow> Some (i, j))"

section \<open>What the loader has stored, stage by stage\<close>

text \<open>
  The index of the first occurrence of \<open>x\<close> in a list, or -1: what the loops of
  \<open>StateToIdx\<close> and \<open>TransitionToIdx\<close> compute on the names and on the symbols.
\<close>

fun index_of :: "'a list \<Rightarrow> 'a \<Rightarrow> int" where
  "index_of [] x = - 1"
| "index_of (y # ys) x =
     (if x = y then 0 else if index_of ys x = - 1 then - 1 else index_of ys x + 1)"

text \<open>The array \<open>f\<close> after the elements of \<open>xs\<close> are stored from the index \<open>n\<close> on.\<close>

definition store_at :: "(int \<Rightarrow> 'a) \<Rightarrow> int \<Rightarrow> 'a list \<Rightarrow> int \<Rightarrow> 'a" where
  "store_at f n xs = (\<lambda>i. if n \<le> i \<and> i < n + int (length xs) then xs ! nat (i - n) else f i)"

text \<open>The caller's structure after the two counters are reset (lines 120 and 121).\<close>

definition zeroed :: "Automaton \<Rightarrow> Automaton" where
  "zeroed a0 = a0\<lparr>statesNum := 0, transitionsNum := 0\<rparr>"

text \<open>The structure after the words \<open>ws\<close> are stored as state names (lines 151 to 155).\<close>

definition states_stored :: "Automaton \<Rightarrow> string list \<Rightarrow> Automaton" where
  "states_stored a ws =
     a\<lparr>statesNames := store_at (statesNames a) (statesNum a) ws,
       statesNum := statesNum a + int (length ws)\<rparr>"

text \<open>
  The structure after the first two lines are read: the state names of the second line
  are stored, and the start index is the index of the first line among them (line 158).
\<close>

definition start_set :: "Automaton \<Rightarrow> string \<Rightarrow> string \<Rightarrow> Automaton" where
  "start_set a0 l1 l2 =
     (states_stored (zeroed a0) (ReadWords l2))
       \<lparr>startStateIndex := index_of (ReadWords l2) l1\<rparr>"

text \<open>The structure after the characters \<open>cs\<close> are stored as symbols (lines 174 to 188).\<close>

definition symbols_stored :: "Automaton \<Rightarrow> char list \<Rightarrow> Automaton" where
  "symbols_stored a cs =
     a\<lparr>transitions := store_at (transitions a) (transitionsNum a) cs,
       transitionsNum := transitionsNum a + int (length cs)\<rparr>"

text \<open>
  The structure after the flags of the states are cleared and the states that the words
  \<open>ws\<close> name are marked as final (lines 192 to 217).
\<close>

definition finals_marked :: "Automaton \<Rightarrow> string list \<Rightarrow> Automaton" where
  "finals_marked a ws =
     a\<lparr>finishState :=
         (\<lambda>i. if 0 \<le> i \<and> i < statesNum a
              then (if i \<in> index_of (names a) ` set ws then 1 else 0)
              else finishState a i)\<rparr>"

text \<open>
  The transition table after the lines \<open>ls\<close> are stored: the entry of a pair is the
  target of the first line of \<open>ls\<close> that stands for the pair, and -1 when there is none.
\<close>

definition entry_of :: "Automaton \<Rightarrow> string list \<Rightarrow> int \<Rightarrow> int \<Rightarrow> int" where
  "entry_of a ls i j =
     (case List.find (\<lambda>l. pair_of a l = Some (i, j)) ls of
        None \<Rightarrow> - 1
      | Some l \<Rightarrow> (case resolve a l of None \<Rightarrow> - 1 | Some (i', j', k) \<Rightarrow> k))"

definition table_of :: "Automaton \<Rightarrow> string list \<Rightarrow> int list list" where
  "table_of a ls =
     map (\<lambda>i. map (\<lambda>j. entry_of a ls i j) [0..transitionsNum a - 1]) [0..statesNum a - 1]"

definition transitions_stored :: "Automaton \<Rightarrow> string list \<Rightarrow> Automaton" where
  "transitions_stored a ls = a\<lparr>transitionTable := table_of a ls\<rparr>"

text \<open>
  The flags after the loop of \<open>LoadFinish\<close> has marked the states that the words \<open>ws\<close>
  name, and the condition under which the loop marks them all: each word names a state,
  no two of them the same state, and none a state that is marked already.
\<close>

definition marked :: "Automaton \<Rightarrow> string list \<Rightarrow> Automaton" where
  "marked a ws =
     a\<lparr>finishState := (\<lambda>i. if i \<in> StateToIdx a ` set ws then 1 else finishState a i)\<rparr>"

definition markable :: "Automaton \<Rightarrow> string list \<Rightarrow> bool" where
  "markable a ws =
     ((\<forall>w \<in> set ws. StateToIdx a w \<noteq> - 1) \<and> distinct (map (StateToIdx a) ws)
      \<and> (\<forall>w \<in> set ws. finishState a (StateToIdx a w) \<noteq> 1))"

text \<open>
  Transition lines that the loop stores without an error: each of them resolves, and no
  two of them stand for the same pair (from, symbol).
\<close>

definition valid_lines :: "Automaton \<Rightarrow> string list \<Rightarrow> bool" where
  "valid_lines a ls = ((\<forall>l \<in> set ls. resolve a l \<noteq> None) \<and> distinct (map (pair_of a) ls))"

text \<open>
  The first four lines of a file that the loader accepts: the line of the state names
  has at most \<open>MAX_STATES\<close> words, among them the first line; the symbols are different
  from each other and at most \<open>MAX_SYMBOLS\<close>; the final states are listed among the
  state names, each once. No condition asks the state names to differ from each other.
\<close>

definition states_ok :: "string \<Rightarrow> string \<Rightarrow> bool" where
  "states_ok l1 l2 = (int (length (ReadWords l2)) \<le> MAX_STATES \<and> l1 \<in> set (ReadWords l2))"

definition symbols_ok :: "string \<Rightarrow> bool" where
  "symbols_ok l3 =
     (distinct (map first_char (ReadWords l3)) \<and> int (length (ReadWords l3)) \<le> MAX_SYMBOLS)"

definition finals_ok :: "string \<Rightarrow> string \<Rightarrow> bool" where
  "finals_ok l2 l4 =
     (set (ReadWords l4) \<subseteq> set (ReadWords l2) \<and> distinct (ReadWords l4))"

text \<open>The structure after the first four lines are read, before the table is allocated.\<close>

definition header_built ::
    "Automaton \<Rightarrow> string \<Rightarrow> string \<Rightarrow> string \<Rightarrow> string \<Rightarrow> Automaton" where
  "header_built a0 l1 l2 l3 l4 =
     finals_marked (symbols_stored (start_set a0 l1 l2) (map first_char (ReadWords l3)))
       (ReadWords l4)"


section \<open>More automaton files\<close>

text \<open>
  Files with the header of \<open>dup_trans_file\<close>: one whose first transition line names a
  state that is not listed; one that has such a line between the two lines that give the
  transition from \<open>p\<close> on \<open>a\<close>; and \<open>dup_trans_file\<close> without the newline that ends
  its last line.
\<close>

definition bad_line_file :: "char list" where
  "bad_line_file = ''p'' @ [NL] @ ''p q'' @ [NL] @ ''a'' @ [NL] @ ''q'' @ [NL]
     @ ''z a q'' @ [NL] @ ''q a p'' @ [NL]"

definition bad_then_dup_file :: "char list" where
  "bad_then_dup_file = ''p'' @ [NL] @ ''p q'' @ [NL] @ ''a'' @ [NL] @ ''q'' @ [NL]
     @ ''p a q'' @ [NL] @ ''z a q'' @ [NL] @ ''p a p'' @ [NL]"

definition dup_trans_unterminated :: "char list" where
  "dup_trans_unterminated = ''p'' @ [NL] @ ''p q'' @ [NL] @ ''a'' @ [NL] @ ''q'' @ [NL]
     @ ''p a q'' @ [NL] @ ''p a p''"





section \<open>Properties of the lookups and of the simulation loop\<close>

lemma TransitionToIdx_from_result:
  "TransitionToIdx_from a c i = r \<Longrightarrow>
     (r = - 1 \<and> (\<forall>j. i \<le> j \<and> j < transitionsNum a \<longrightarrow> transitions a j \<noteq> c))
     \<or> (i \<le> r \<and> r < transitionsNum a \<and> transitions a r = c
         \<and> (\<forall>j. i \<le> j \<and> j < r \<longrightarrow> transitions a j \<noteq> c))"
proof (induction a c i arbitrary: r rule: TransitionToIdx_from.induct)
  case (1 a c i)
  show ?case
  proof (cases "i < transitionsNum a")
    case False
    with "1.prems" show ?thesis by (auto simp: TransitionToIdx_from.simps[of a _ i])
  next
    case True
    show ?thesis
    proof (cases "c = transitions a i")
      case t: True
      with True "1.prems" have "r = i" by (simp add: TransitionToIdx_from.simps[of a _ i])
      with True t show ?thesis by auto
    next
      case f: False
      with True "1.prems" have "TransitionToIdx_from a c (i + 1) = r"
        by (simp add: TransitionToIdx_from.simps[of a _ i])
      from "1.IH"[OF True f this] show ?thesis
      proof
        assume h: "r = - 1 \<and> (\<forall>j. i + 1 \<le> j \<and> j < transitionsNum a \<longrightarrow> transitions a j \<noteq> c)"
        have "\<forall>j. i \<le> j \<and> j < transitionsNum a \<longrightarrow> transitions a j \<noteq> c"
        proof (intro allI impI)
          fix j assume "i \<le> j \<and> j < transitionsNum a"
          then have "j = i \<or> (i + 1 \<le> j \<and> j < transitionsNum a)" by arith
          with h f show "transitions a j \<noteq> c" by auto
        qed
        with h show ?thesis by simp
      next
        assume h: "i + 1 \<le> r \<and> r < transitionsNum a \<and> transitions a r = c
         \<and> (\<forall>j. i + 1 \<le> j \<and> j < r \<longrightarrow> transitions a j \<noteq> c)"
        have "\<forall>j. i \<le> j \<and> j < r \<longrightarrow> transitions a j \<noteq> c"
        proof (intro allI impI)
          fix j assume "i \<le> j \<and> j < r"
          then have "j = i \<or> (i + 1 \<le> j \<and> j < r)" by arith
          with h f show "transitions a j \<noteq> c" by auto
        qed
        with h show ?thesis by simp
      qed
    qed
  qed
qed

lemma TransitionToIdx_absent:
  "TransitionToIdx a c = - 1 \<longleftrightarrow> c \<notin> set (symbols a)"
proof -
  have s: "set (symbols a) = transitions a ` {j. 0 \<le> j \<and> j < transitionsNum a}"
    by (auto simp: symbols_def)
  from TransitionToIdx_from_result[of a c 0, OF refl]
  show ?thesis unfolding TransitionToIdx_def s by (auto simp: image_iff)
qed

lemma TransitionToIdx_range:
  "TransitionToIdx a c \<noteq> - 1 \<Longrightarrow> 0 \<le> TransitionToIdx a c \<and> TransitionToIdx a c < transitionsNum a"
  using TransitionToIdx_from_result[of a c 0, OF refl]
  unfolding TransitionToIdx_def by auto

lemma ProcessString_check_iff:
  "ProcessString_check a s \<longleftrightarrow> (\<exists>c \<in> set s. c \<notin> set (symbols a))"
  by (induction s) (auto simp: TransitionToIdx_absent)

lemma table_get_wf:
  assumes "table_ok a" "0 \<le> q" "q < statesNum a" "0 \<le> j" "j < transitionsNum a"
  shows "\<exists>t. table_get (transitionTable a) q j = Some t \<and> (t = - 1 \<or> (0 \<le> t \<and> t < statesNum a))"
proof -
  from assms have q: "nat q < length (transitionTable a)" by (simp add: table_ok_def)
  then have r: "transitionTable a ! nat q \<in> set (transitionTable a)" by simp
  with assms have l: "length (transitionTable a ! nat q) = nat (transitionsNum a)"
    by (simp add: table_ok_def)
  with assms have j: "nat j < length (transitionTable a ! nat q)" by simp
  then have "transitionTable a ! nat q ! nat j \<in> set (transitionTable a ! nat q)" by simp
  with r assms(1) have "transitionTable a ! nat q ! nat j = - 1
      \<or> (0 \<le> transitionTable a ! nat q ! nat j \<and> transitionTable a ! nat q ! nat j < statesNum a)"
    unfolding table_ok_def by blast
  with q j assms show ?thesis by (simp add: table_get_def)
qed

lemma ProcessString_run_fold:
  assumes "wf_automaton a"
  shows "0 \<le> q \<Longrightarrow> q < statesNum a \<Longrightarrow> \<forall>c \<in> set s. c \<in> set (symbols a) \<Longrightarrow>
         ProcessString_run a q s =
           Some (case fold_delta a q s of
                   None \<Rightarrow> 1
                 | Some q' \<Rightarrow> if q' \<in> finalStates a then 0 else 1)"
proof (induction s arbitrary: q)
  case Nil
  from assms have "statesNum a \<le> MAX_STATES"
    and "finishState a q = 0 \<or> finishState a q = 1"
    using Nil by (auto simp: wf_automaton_def header_ok_def)
  with Nil show ?case by (auto simp: finalStates_def)
next
  case (Cons c cs)
  from Cons.prems have "TransitionToIdx a c \<noteq> - 1" by (simp add: TransitionToIdx_absent)
  from TransitionToIdx_range[OF this] assms Cons.prems
  obtain t where t: "table_get (transitionTable a) q (TransitionToIdx a c) = Some t"
    and tr: "t = - 1 \<or> (0 \<le> t \<and> t < statesNum a)"
    using table_get_wf[of a q "TransitionToIdx a c"] by (auto simp: wf_automaton_def)
  show ?case
  proof (cases "t = - 1")
    case True
    with t show ?thesis by (simp add: delta_def)
  next
    case False
    with tr have r: "0 \<le> t" "t < statesNum a" by auto
    from Cons.prems have "\<forall>c \<in> set cs. c \<in> set (symbols a)" by simp
    from Cons.IH[OF r this] t False r show ?thesis by (simp add: delta_def)
  qed
qed

lemma ProcessString_wf:
  assumes "wf_automaton a" "\<forall>c \<in> set s. c \<in> set (symbols a)"
  shows "ProcessString a s =
           Some (case fold_delta a (startStateIndex a) s of
                   None \<Rightarrow> 1
                 | Some q' \<Rightarrow> if q' \<in> finalStates a then 0 else 1)"
proof -
  from assms(2) have "\<not> ProcessString_check a s" by (simp add: ProcessString_check_iff)
  moreover from assms(1) have "0 \<le> startStateIndex a" "startStateIndex a < statesNum a"
    by (auto simp: wf_automaton_def header_ok_def)
  ultimately show ?thesis
    using ProcessString_run_fold[OF assms(1) _ _ assms(2)] by (simp add: ProcessString_def)
qed

section \<open>What the loader establishes\<close>

lemma StateToIdx_from_result:
  "StateToIdx_from a s i = r \<Longrightarrow>
     (r = - 1 \<and> (\<forall>j. i \<le> j \<and> j < statesNum a \<longrightarrow> statesNames a j \<noteq> s))
     \<or> (i \<le> r \<and> r < statesNum a \<and> statesNames a r = s
         \<and> (\<forall>j. i \<le> j \<and> j < r \<longrightarrow> statesNames a j \<noteq> s))"
proof (induction a s i arbitrary: r rule: StateToIdx_from.induct)
  case (1 a s i)
  show ?case
  proof (cases "i < statesNum a")
    case False
    with "1.prems" show ?thesis by (auto simp: StateToIdx_from.simps[of a _ i])
  next
    case True
    show ?thesis
    proof (cases "s = statesNames a i")
      case t: True
      with True "1.prems" have "r = i" by (simp add: StateToIdx_from.simps[of a _ i])
      with True t show ?thesis by auto
    next
      case f: False
      with True "1.prems" have "StateToIdx_from a s (i + 1) = r"
        by (simp add: StateToIdx_from.simps[of a _ i])
      from "1.IH"[OF True f this] show ?thesis
      proof
        assume h: "r = - 1 \<and> (\<forall>j. i + 1 \<le> j \<and> j < statesNum a \<longrightarrow> statesNames a j \<noteq> s)"
        have "\<forall>j. i \<le> j \<and> j < statesNum a \<longrightarrow> statesNames a j \<noteq> s"
        proof (intro allI impI)
          fix j assume "i \<le> j \<and> j < statesNum a"
          then have "j = i \<or> (i + 1 \<le> j \<and> j < statesNum a)" by arith
          with h f show "statesNames a j \<noteq> s" by auto
        qed
        with h show ?thesis by simp
      next
        assume h: "i + 1 \<le> r \<and> r < statesNum a \<and> statesNames a r = s
         \<and> (\<forall>j. i + 1 \<le> j \<and> j < r \<longrightarrow> statesNames a j \<noteq> s)"
        have "\<forall>j. i \<le> j \<and> j < r \<longrightarrow> statesNames a j \<noteq> s"
        proof (intro allI impI)
          fix j assume "i \<le> j \<and> j < r"
          then have "j = i \<or> (i + 1 \<le> j \<and> j < r)" by arith
          with h f show "statesNames a j \<noteq> s" by auto
        qed
        with h show ?thesis by simp
      qed
    qed
  qed
qed

lemma StateToIdx_range:
  "StateToIdx a s \<noteq> - 1 \<Longrightarrow> 0 \<le> StateToIdx a s \<and> StateToIdx a s < statesNum a"
  using StateToIdx_from_result[of a s 0, OF refl]
  unfolding StateToIdx_def by auto

lemma StateToIdx_frame:
  "statesNames a' = statesNames a \<Longrightarrow> statesNum a' = statesNum a \<Longrightarrow>
     StateToIdx_from a' s i = StateToIdx_from a s i"
proof (induction a s i rule: StateToIdx_from.induct)
  case (1 a s i)
  then show ?case
    by (simp add: StateToIdx_from.simps[of a s i] StateToIdx_from.simps[of a' s i])
qed

lemma TransitionToIdx_frame:
  "transitions a' = transitions a \<Longrightarrow> transitionsNum a' = transitionsNum a \<Longrightarrow>
     TransitionToIdx_from a' c i = TransitionToIdx_from a c i"
proof (induction a c i rule: TransitionToIdx_from.induct)
  case (1 a c i)
  then show ?case
    by (simp add: TransitionToIdx_from.simps[of a c i] TransitionToIdx_from.simps[of a' c i])
qed

lemma LoadStates_result:
  "0 \<le> statesNum a \<Longrightarrow> LoadStates a s = r \<Longrightarrow>
     (r = Undefined \<and> MAX_STATES < statesNum a + int (length (ReadWords s)))
     \<or> (\<exists>a'. r = Ok a'
          \<and> a' = a\<lparr>statesNames := statesNames a', statesNum := statesNum a'\<rparr>
          \<and> statesNum a' = statesNum a + int (length (ReadWords s))
          \<and> (statesNum a \<le> MAX_STATES \<longrightarrow> statesNum a' \<le> MAX_STATES)
          \<and> (\<forall>i. i < statesNum a \<longrightarrow> statesNames a' i = statesNames a i)
          \<and> (\<forall>k < length (ReadWords s).
                statesNames a' (statesNum a + int k) = ReadWords s ! k))"
proof (induction a s arbitrary: r rule: LoadStates.induct)
  case (1 a s)
  show ?case
  proof (cases "ReadWord s")
    case None
    with "1.prems" show ?thesis
      by (auto simp: LoadStates.simps[of a s] ReadWords.simps[of s])
  next
    case (Some p)
    obtain w rest where p: "p = (w, rest)" by (cases p)
    have rw: "ReadWords s = w # ReadWords rest"
      using Some p by (simp add: ReadWords.simps[of s])
    show ?thesis
    proof (cases "statesNum a < MAX_STATES")
      case False
      with "1.prems" Some p rw show ?thesis
        by (simp add: LoadStates.simps[of a s])
    next
      case True
      let ?b = "a\<lparr>statesNames := (statesNames a)(statesNum a := w),
                  statesNum := statesNum a + 1\<rparr>"
      from True "1.prems" Some p have r: "LoadStates ?b rest = r"
        by (simp add: LoadStates.simps[of a s])
      have c: "0 \<le> statesNum a \<and> statesNum a < MAX_STATES" using True "1.prems" by simp
      have b0: "0 \<le> statesNum ?b" using "1.prems" by simp
      from "1.IH"[OF Some p[symmetric] c b0 r] 
      show ?thesis
      proof
        assume "r = Undefined \<and> MAX_STATES < statesNum ?b + int (length (ReadWords rest))"
        then show ?thesis using rw by simp
      next
        assume "\<exists>a'. r = Ok a'
          \<and> a' = ?b\<lparr>statesNames := statesNames a', statesNum := statesNum a'\<rparr>
          \<and> statesNum a' = statesNum ?b + int (length (ReadWords rest))
          \<and> (statesNum ?b \<le> MAX_STATES \<longrightarrow> statesNum a' \<le> MAX_STATES)
          \<and> (\<forall>i. i < statesNum ?b \<longrightarrow> statesNames a' i = statesNames ?b i)
          \<and> (\<forall>k < length (ReadWords rest).
                statesNames a' (statesNum ?b + int k) = ReadWords rest ! k)"
        then obtain a' where a': "r = Ok a'"
          and fr: "a' = ?b\<lparr>statesNames := statesNames a', statesNum := statesNum a'\<rparr>"
          and n: "statesNum a' = statesNum ?b + int (length (ReadWords rest))"
          and m: "statesNum a' \<le> MAX_STATES"
          and old: "\<forall>i. i < statesNum ?b \<longrightarrow> statesNames a' i = statesNames ?b i"
          and new: "\<forall>k < length (ReadWords rest).
                statesNames a' (statesNum ?b + int k) = ReadWords rest ! k"
          using True by auto
        have 1: "a' = a\<lparr>statesNames := statesNames a', statesNum := statesNum a'\<rparr>"
          using fr by (cases a', cases a) simp
        have 2: "statesNum a' = statesNum a + int (length (ReadWords s))"
          using n rw by simp
        have 3: "\<forall>i. i < statesNum a \<longrightarrow> statesNames a' i = statesNames a i"
          using old by simp
        have 4: "\<forall>k < length (ReadWords s).
                statesNames a' (statesNum a + int k) = ReadWords s ! k"
        proof (intro allI impI)
          fix k assume k: "k < length (ReadWords s)"
          show "statesNames a' (statesNum a + int k) = ReadWords s ! k"
          proof (cases k)
            case 0
            with old rw show ?thesis by simp
          next
            case (Suc k')
            with k rw have "k' < length (ReadWords rest)" by simp
            with new have "statesNames a' (statesNum ?b + int k') = ReadWords rest ! k'" by blast
            moreover have "statesNum ?b + int k' = statesNum a + int k" using Suc by simp
            moreover have "ReadWords s ! k = ReadWords rest ! k'" using Suc rw by simp
            ultimately show ?thesis by metis
          qed
        qed
        from a' 1 2 m 3 4 show ?thesis by blast
      qed
    qed
  qed
qed

lemma LoadStates_not_Failed: "LoadStates a s \<noteq> Failed m b"
proof (induction a s rule: LoadStates.induct)
  case (1 a s)
  show ?case
  proof (cases "ReadWord s")
    case None
    then show ?thesis by (simp add: LoadStates.simps[of a s])
  next
    case (Some p)
    obtain w rest where p: "p = (w, rest)" by (cases p)
    show ?thesis
    proof (cases "0 \<le> statesNum a \<and> statesNum a < MAX_STATES")
      case True
      from "1.IH"[OF Some p[symmetric] True] True Some p show ?thesis
        by (simp add: LoadStates.simps[of a s])
    next
      case False
      with Some p show ?thesis by (auto simp: LoadStates.simps[of a s])
    qed
  qed
qed

lemma LoadSymbols_Ok:
  "LoadSymbols a s = Ok a' \<Longrightarrow>
     a' = a\<lparr>transitions := transitions a', transitionsNum := transitionsNum a'\<rparr>
     \<and> transitionsNum a \<le> transitionsNum a'
     \<and> (transitionsNum a \<le> MAX_SYMBOLS \<longrightarrow> transitionsNum a' \<le> MAX_SYMBOLS)"
proof (induction a s rule: LoadSymbols.induct)
  case (1 a s)
  show ?case
  proof (cases "ReadWord s")
    case None
    with "1.prems" show ?thesis by (auto simp: LoadSymbols.simps[of a s])
  next
    case (Some p)
    obtain w rest where p: "p = (w, rest)" by (cases p)
    let ?c = "first_char w"
    let ?b = "a\<lparr>transitions := (transitions a)(transitionsNum a := ?c),
                transitionsNum := transitionsNum a + 1\<rparr>"
    from "1.prems" Some p have n: "\<not> symbol_occurs a ?c 0"
      and c: "0 \<le> transitionsNum a \<and> transitionsNum a < MAX_SYMBOLS"
      and r: "LoadSymbols ?b rest = Ok a'"
      by (auto simp: LoadSymbols.simps[of a s] Let_def split: if_splits)
    from "1.IH"[OF Some p[symmetric] refl n c r] c
    have fr: "a' = ?b\<lparr>transitions := transitions a', transitionsNum := transitionsNum a'\<rparr>"
      and le: "transitionsNum ?b \<le> transitionsNum a'"
      and m: "transitionsNum a' \<le> MAX_SYMBOLS" by auto
    have "a' = a\<lparr>transitions := transitions a', transitionsNum := transitionsNum a'\<rparr>"
      using fr by (cases a', cases a) simp
    with le m show ?thesis by simp
  qed
qed

lemma clear_finish_result:
  "clear_finish a i = a\<lparr>finishState := finishState (clear_finish a i)\<rparr>
   \<and> (\<forall>j. i \<le> j \<and> j < statesNum a \<longrightarrow> finishState (clear_finish a i) j = 0)
   \<and> (\<forall>j. j < i \<longrightarrow> finishState (clear_finish a i) j = finishState a j)"
proof (induction a i rule: clear_finish.induct)
  case (1 a i)
  show ?case
  proof (cases "i < statesNum a")
    case False
    then show ?thesis by (simp add: clear_finish.simps[of a i])
  next
    case True
    let ?b = "a\<lparr>finishState := (finishState a)(i := 0)\<rparr>"
    have e: "clear_finish a i = clear_finish ?b (i + 1)"
      using True by (simp add: clear_finish.simps[of a i])
    from "1.IH"[OF True]
    have fr: "clear_finish ?b (i + 1) = ?b\<lparr>finishState := finishState (clear_finish ?b (i + 1))\<rparr>"
      and z: "\<forall>j. i + 1 \<le> j \<and> j < statesNum ?b \<longrightarrow> finishState (clear_finish ?b (i + 1)) j = 0"
      and o: "\<forall>j. j < i + 1 \<longrightarrow> finishState (clear_finish ?b (i + 1)) j = finishState ?b j"
      by blast+
    have 1: "clear_finish a i = a\<lparr>finishState := finishState (clear_finish a i)\<rparr>"
      unfolding e using fr by (cases "clear_finish ?b (i + 1)", cases a) simp
    have 2: "\<forall>j. i \<le> j \<and> j < statesNum a \<longrightarrow> finishState (clear_finish a i) j = 0"
    proof (intro allI impI)
      fix j assume j: "i \<le> j \<and> j < statesNum a"
      show "finishState (clear_finish a i) j = 0"
      proof (cases "j = i")
        case True
        with o show ?thesis unfolding e by simp
      next
        case False
        with j have "i + 1 \<le> j \<and> j < statesNum ?b" by simp
        with z show ?thesis unfolding e by blast
      qed
    qed
    have 3: "\<forall>j. j < i \<longrightarrow> finishState (clear_finish a i) j = finishState a j"
      unfolding e using o by simp
    from 1 2 3 show ?thesis by blast
  qed
qed

lemma LoadFinish_Ok:
  "LoadFinish a s = Ok a' \<Longrightarrow>
     a' = a\<lparr>finishState := finishState a'\<rparr>
     \<and> (\<forall>j. finishState a' j = finishState a j \<or> finishState a' j = 1)"
proof (induction a s rule: LoadFinish.induct)
  case (1 a s)
  show ?case
  proof (cases "ReadWord s")
    case None
    with "1.prems" show ?thesis by (auto simp: LoadFinish.simps[of a s])
  next
    case (Some p)
    obtain w rest where p: "p = (w, rest)" by (cases p)
    let ?idx = "StateToIdx a w"
    let ?b = "a\<lparr>finishState := (finishState a)(?idx := 1)\<rparr>"
    from "1.prems" Some p have n: "\<not> ?idx = - 1" and d: "\<not> finishState a ?idx = 1"
      and r: "LoadFinish ?b rest = Ok a'"
      by (auto simp: LoadFinish.simps[of a s] Let_def split: if_splits)
    from "1.IH"[OF Some p[symmetric] refl n d r]
    have fr: "a' = ?b\<lparr>finishState := finishState a'\<rparr>"
      and v: "\<forall>j. finishState a' j = finishState ?b j \<or> finishState a' j = 1" by blast+
    have "a' = a\<lparr>finishState := finishState a'\<rparr>"
      using fr by (cases a', cases a) simp
    moreover have "\<forall>j. finishState a' j = finishState a j \<or> finishState a' j = 1"
    proof
      fix j from v[rule_format, of j] show "finishState a' j = finishState a j \<or> finishState a' j = 1"
        by (cases "j = ?idx") auto
    qed
    ultimately show ?thesis by blast
  qed
qed

lemma table_ok_init: "table_ok (init_table a)"
  by (auto simp: table_ok_def init_table_def)

lemma table_set_ok:
  assumes "table_ok a" "0 \<le> v" "v < statesNum a"
  shows "table_ok (a\<lparr>transitionTable := table_set (transitionTable a) i j v\<rparr>)"
proof -
  let ?t = "transitionTable a"
  have len: "length (table_set ?t i j v) = nat (statesNum a)"
    using assms by (simp add: table_set_def table_ok_def)
  have rows: "\<forall>row \<in> set (table_set ?t i j v).
            length row = nat (transitionsNum a)
            \<and> (\<forall>t \<in> set row. t = - 1 \<or> (0 \<le> t \<and> t < statesNum a))"
  proof
    fix row assume "row \<in> set (table_set ?t i j v)"
    then have "row \<in> set ?t \<or> (nat i < length ?t \<and> row = (?t ! nat i)[nat j := v])"
    proof (cases "nat i < length ?t")
      case True
      assume "row \<in> set (table_set ?t i j v)"
      with True show ?thesis
        unfolding table_set_def by (auto dest!: set_update_subset_insert[THEN subsetD])
    next
      case False
      assume "row \<in> set (table_set ?t i j v)"
      with False show ?thesis by (simp add: table_set_def list_update_beyond)
    qed
    then show "length row = nat (transitionsNum a)
            \<and> (\<forall>t \<in> set row. t = - 1 \<or> (0 \<le> t \<and> t < statesNum a))"
    proof
      assume "row \<in> set ?t"
      with assms(1) show ?thesis unfolding table_ok_def by blast
    next
      assume h: "nat i < length ?t \<and> row = (?t ! nat i)[nat j := v]"
      then have r: "?t ! nat i \<in> set ?t" by simp
      with assms(1) have l: "length (?t ! nat i) = nat (transitionsNum a)"
        and e: "\<forall>t \<in> set (?t ! nat i). t = - 1 \<or> (0 \<le> t \<and> t < statesNum a)"
        unfolding table_ok_def by blast+
      have "\<forall>t \<in> set row. t = - 1 \<or> (0 \<le> t \<and> t < statesNum a)"
      proof
        fix t assume "t \<in> set row"
        with h have "t = v \<or> t \<in> set (?t ! nat i)"
          by (auto dest!: set_update_subset_insert[THEN subsetD])
        with e assms show "t = - 1 \<or> (0 \<le> t \<and> t < statesNum a)" by auto
      qed
      with l h show ?thesis by simp
    qed
  qed
  from len rows show ?thesis by (simp add: table_ok_def)
qed

lemma StateToIdx_cong:
  "statesNames a' = statesNames a \<Longrightarrow> statesNum a' = statesNum a \<Longrightarrow>
     StateToIdx a' s = StateToIdx a s"
  unfolding StateToIdx_def by (rule StateToIdx_frame)

lemma TransitionToIdx_cong:
  "transitions a' = transitions a \<Longrightarrow> transitionsNum a' = transitionsNum a \<Longrightarrow>
     TransitionToIdx a' c = TransitionToIdx a c"
  unfolding TransitionToIdx_def by (rule TransitionToIdx_frame)

lemma LoadTransition_Ok:
  assumes "LoadTransition a l = Ok a'"
  shows "\<exists>from symb to.
           sscanf_sss l = Some (from, symb, to)
           \<and> StateToIdx a from \<noteq> - 1 \<and> TransitionToIdx a (first_char symb) \<noteq> - 1
           \<and> StateToIdx a to \<noteq> - 1
           \<and> table_get (transitionTable a) (StateToIdx a from)
                (TransitionToIdx a (first_char symb)) = Some (- 1)
           \<and> a' = a\<lparr>transitionTable :=
                      table_set (transitionTable a) (StateToIdx a from)
                        (TransitionToIdx a (first_char symb)) (StateToIdx a to)\<rparr>"
  using assms unfolding LoadTransition_def
  by (auto simp: Let_def split: option.splits prod.splits if_splits)

lemma LoadTransition_table_ok:
  assumes "LoadTransition a l = Ok a'" "table_ok a"
  shows "table_ok a' \<and> a' = a\<lparr>transitionTable := transitionTable a'\<rparr>"
proof -
  from LoadTransition_Ok[OF assms(1)] obtain "from" symb to where
    t: "StateToIdx a to \<noteq> - 1"
    and a': "a' = a\<lparr>transitionTable :=
                      table_set (transitionTable a) (StateToIdx a from)
                        (TransitionToIdx a (first_char symb)) (StateToIdx a to)\<rparr>"
    by blast
  from StateToIdx_range[OF t] assms(2) have "table_ok a'"
    unfolding a' by (intro table_set_ok) auto
  moreover have "a' = a\<lparr>transitionTable := transitionTable a'\<rparr>"
    by (subst (2) a', subst a') simp
  ultimately show ?thesis by blast
qed

lemma LoadTransitions_Ok:
  "LoadTransitions a f = Ok a' \<Longrightarrow> table_ok a \<Longrightarrow>
     table_ok a' \<and> a' = a\<lparr>transitionTable := transitionTable a'\<rparr>"
proof (induction a f rule: LoadTransitions.induct)
  case (1 a f)
  obtain r g where gl: "GetLine f = (r, g)" by (cases "GetLine f") auto
  show ?case
  proof (cases r)
    case None
    with gl "1.prems" show ?thesis by (auto simp: LoadTransitions.simps[of a f])
  next
    case (Some l)
    with gl "1.prems" obtain b where b: "LoadTransition a l = Ok b"
      and r: "LoadTransitions b g = Ok a'"
      by (auto simp: LoadTransitions.simps[of a f] split: outcome.splits)
    from LoadTransition_table_ok[OF b "1.prems"(2)]
    have tb: "table_ok b" and fb: "b = a\<lparr>transitionTable := transitionTable b\<rparr>" by blast+
    from "1.IH"[OF gl[symmetric] Some[THEN arg_cong[of _ _ id], simplified] b r tb]
    have "table_ok a'" and fa: "a' = b\<lparr>transitionTable := transitionTable a'\<rparr>" by blast+
    moreover have "a' = a\<lparr>transitionTable := transitionTable a'\<rparr>"
      by (subst fa, subst fb) simp
    ultimately show ?thesis by blast
  qed
qed

lemma LoadAutomaton_Ok_stages:
  assumes "LoadAutomaton a0 path = Ok a"
  obtains bytes initialState f1 states f2 a1 symbs f3 a2 finishStates f4 a3 where
    "path = Some bytes"
    "GetLine (fopen bytes) = (Some initialState, f1)"
    "GetLine f1 = (Some states, f2)"
    "LoadStates (a0\<lparr>statesNum := 0, transitionsNum := 0\<rparr>) states = Ok a1"
    "StateToIdx a1 initialState \<noteq> - 1"
    "GetLine f2 = (Some symbs, f3)"
    "LoadSymbols (a1\<lparr>startStateIndex := StateToIdx a1 initialState\<rparr>) symbs = Ok a2"
    "GetLine f3 = (Some finishStates, f4)"
    "LoadFinish (clear_finish a2 0) finishStates = Ok a3"
    "LoadTransitions (init_table a3) f4 = Ok a"
  using assms unfolding LoadAutomaton_def LoadHeader_def Let_def
  by (auto split: option.splits prod.splits outcome.splits if_splits)

lemma LoadAutomaton_wf:
  assumes "LoadAutomaton a0 path = Ok a"
  shows "wf_automaton a"
proof -
  let ?a00 = "a0\<lparr>statesNum := 0, transitionsNum := 0\<rparr>"
  from assms obtain bytes initialState f1 states f2 a1 symbs f3 a2 finishStates f4 a3 where
    s1: "LoadStates ?a00 states = Ok a1"
    and i1: "StateToIdx a1 initialState \<noteq> - 1"
    and s2: "LoadSymbols (a1\<lparr>startStateIndex := StateToIdx a1 initialState\<rparr>) symbs = Ok a2"
    and s3: "LoadFinish (clear_finish a2 0) finishStates = Ok a3"
    and s4: "LoadTransitions (init_table a3) f4 = Ok a"
    by (rule LoadAutomaton_Ok_stages)
  from LoadStates_result[of ?a00 states, OF _ s1]
  have fr1: "a1 = ?a00\<lparr>statesNames := statesNames a1, statesNum := statesNum a1\<rparr>"
    and n1: "0 \<le> statesNum a1" "statesNum a1 \<le> MAX_STATES"
    by (auto simp: MAX_STATES_def)
  have t1: "transitionsNum a1 = 0" using arg_cong[OF fr1, of transitionsNum] by simp
  let ?b1 = "a1\<lparr>startStateIndex := StateToIdx a1 initialState\<rparr>"
  from LoadSymbols_Ok[OF s2]
  have fr2: "a2 = ?b1\<lparr>transitions := transitions a2, transitionsNum := transitionsNum a2\<rparr>"
    and n2: "0 \<le> transitionsNum a2" "transitionsNum a2 \<le> MAX_SYMBOLS"
    using t1 by (auto simp: MAX_SYMBOLS_def)
  have e2: "statesNum a2 = statesNum a1" "startStateIndex a2 = StateToIdx a1 initialState"
    using arg_cong[OF fr2, of statesNum] arg_cong[OF fr2, of startStateIndex] by simp_all
  let ?c2 = "clear_finish a2 0"
  from clear_finish_result[of a2 0]
  have fr3: "?c2 = a2\<lparr>finishState := finishState ?c2\<rparr>"
    and z3: "\<forall>j. 0 \<le> j \<and> j < statesNum a2 \<longrightarrow> finishState ?c2 j = 0" by blast+
  from LoadFinish_Ok[OF s3]
  have fr4: "a3 = ?c2\<lparr>finishState := finishState a3\<rparr>"
    and v4: "\<forall>j. finishState a3 j = finishState ?c2 j \<or> finishState a3 j = 1" by blast+
  have e4: "statesNum a3 = statesNum a2" "startStateIndex a3 = startStateIndex a2"
      "transitionsNum a3 = transitionsNum a2"
    using arg_cong[OF fr4, of statesNum] arg_cong[OF fr3, of statesNum]
      arg_cong[OF fr4, of startStateIndex] arg_cong[OF fr3, of startStateIndex]
      arg_cong[OF fr4, of transitionsNum] arg_cong[OF fr3, of transitionsNum]
    by simp_all
  from LoadTransitions_Ok[OF s4 table_ok_init]
  have tb: "table_ok a" and fr5: "a = init_table a3\<lparr>transitionTable := transitionTable a\<rparr>"
    by blast+
  have e5: "statesNum a = statesNum a3" "startStateIndex a = startStateIndex a3"
      "transitionsNum a = transitionsNum a3" "finishState a = finishState a3"
    using arg_cong[OF fr5, of statesNum] arg_cong[OF fr5, of startStateIndex]
      arg_cong[OF fr5, of transitionsNum] arg_cong[OF fr5, of finishState]
    by (simp_all add: init_table_def)
  have fin: "\<forall>i. 0 \<le> i \<and> i < statesNum a \<longrightarrow> finishState a i = 0 \<or> finishState a i = 1"
  proof (intro allI impI)
    fix i assume "0 \<le> i \<and> i < statesNum a"
    with z3 e4 e5 have "finishState ?c2 i = 0" by simp
    with v4[rule_format, of i] show "finishState a i = 0 \<or> finishState a i = 1"
      using e5 by auto
  qed
  from StateToIdx_range[OF i1] have "0 \<le> startStateIndex a" "startStateIndex a < statesNum a"
    using e2 e4 e5 by simp_all
  with n1 n2 e2 e4 e5 fin have "header_ok a" by (simp add: header_ok_def)
  with tb show ?thesis by (simp add: wf_automaton_def)
qed


section \<open>Evaluating the loader on the example files\<close>

lemmas eval_simps =
  GetLine_def GetLine_loop.simps fgets_def fopen_def feof_def c_str_def
  first_char_def MAX_LINE_LENGTH_def NL_def NUL_def HASH_def SP_def isspace_def
  ReadWords.simps ReadWord_def sscanf_s_def sscanf_sss_def after_word_def
  LoadAutomaton_def LoadHeader_def LoadStates.simps LoadSymbols.simps LoadFinish.simps
  LoadTransitions.simps LoadTransition_def clear_finish.simps init_table_def
  symbol_occurs.simps StateToIdx_def StateToIdx_from.simps TransitionToIdx_def
  TransitionToIdx_from.simps table_get_def table_set_def MAX_STATES_def MAX_SYMBOLS_def
  numeral_2_eq_2 blank_def

lemma even_file_loads: "LoadAutomaton blank (Some even_file) = Ok even_dfa"
  by (simp add: eval_simps even_file_def even_dfa_def fun_eq_iff)

lemma even_dfa_symbols: "symbols even_dfa = ''01''"
  by (simp add: symbols_def even_dfa_def upto.simps)

lemma even_dfa_finalStates: "finalStates even_dfa = {0}"
  by (auto simp: finalStates_def even_dfa_def)

lemma partial_file_loads: "LoadAutomaton blank (Some partial_file) = Ok partial_dfa"
  by (simp add: eval_simps partial_file_def partial_dfa_def fun_eq_iff)

lemma partial_dfa_symbols: "symbols partial_dfa = ''ab''"
  by (simp add: symbols_def partial_dfa_def upto.simps)


lemma dup_names_file_lines:
  "GetLine (fopen dup_names_file) =
     (Some ''q0'', \<lparr>unread = ''q0 q1 q0'' @ [NL] @ ''a'' @ [NL] @ ''q0'' @ [NL]
        @ ''q0 a q1'' @ [NL], eof = False\<rparr>)"
  "GetLine \<lparr>unread = ''q0 q1 q0'' @ [NL] @ ''a'' @ [NL] @ ''q0'' @ [NL]
        @ ''q0 a q1'' @ [NL], eof = False\<rparr> =
     (Some ''q0 q1 q0'', \<lparr>unread = ''a'' @ [NL] @ ''q0'' @ [NL] @ ''q0 a q1'' @ [NL],
        eof = False\<rparr>)"
  by (simp_all add: eval_simps dup_names_file_def)

lemma dup_trans_file_header:
  "LoadHeader blank (Some dup_trans_file) = Ok (dup_trans_header, dup_trans_stream)"
  by (simp add: eval_simps dup_trans_file_def dup_trans_header_def dup_trans_stream_def
      fun_eq_iff)

lemma dup_trans_file_fails:
  "LoadAutomaton blank (Some dup_trans_file) = Failed DuplicateTransition dup_trans_dfa"
  by (simp add: eval_simps dup_trans_file_def dup_trans_header_def dup_trans_dfa_def
      fun_eq_iff)

lemma dup_trans_lines: "GetLines dup_trans_stream = [''p a q''] @ ''p a p'' # []"
  by (simp add: GetLines.simps eval_simps dup_trans_stream_def)

lemma dup_trans_resolve:
  "resolve dup_trans_header ''p a q'' = Some (0, 0, 1)"
  "resolve dup_trans_header ''p a p'' = Some (0, 0, 0)"
  by (simp_all add: resolve_def eval_simps dup_trans_header_def)

lemma short_file_fails: "LoadAutomaton blank (Some short_file) = Failed NoSymbols short_dfa"
  by (simp add: eval_simps short_file_def short_dfa_def fun_eq_iff)

lemma nostart_file_fails:
  "LoadAutomaton blank (Some nostart_file) = Failed StartNotListed nostart_dfa"
  by (simp add: eval_simps nostart_file_def nostart_dfa_def fun_eq_iff)

lemma no_file_fails:
  "LoadAutomaton even_dfa None = Failed CannotOpen (even_dfa\<lparr>statesNum := 0, transitionsNum := 0\<rparr>)"
  by (simp add: LoadAutomaton_def LoadHeader_def)

section \<open>Properties of the simulation on loaded automata\<close>

lemma fold_delta_append:
  "fold_delta a q (xs @ ys) =
     (case fold_delta a q xs of None \<Rightarrow> None | Some q' \<Rightarrow> fold_delta a q' ys)"
  by (induction xs arbitrary: q) (auto split: option.splits)

lemma ProcessString_results_wf:
  assumes "wf_automaton a"
  shows "ProcessString a s \<in> {Some 0, Some 1, Some 2}"
proof (cases "\<forall>c \<in> set s. c \<in> set (symbols a)")
  case True
  from ProcessString_wf[OF assms True] show ?thesis by (auto split: option.splits)
next
  case False
  then have "ProcessString_check a s" by (simp add: ProcessString_check_iff)
  then show ?thesis by (simp add: ProcessString_def)
qed

lemma report_no_unknown:
  "res \<in> {0, 1, 2} \<Longrightarrow> UNKNOWN_ERROR l \<notin> set (report res line)"
  by (auto simp: report_def)

lemma main_loop_wf:
  "wf_automaton a \<Longrightarrow>
     \<exists>out. main_loop a f = Some out \<and> (\<forall>l. UNKNOWN_ERROR l \<notin> set out)"
proof (induction a f rule: main_loop.induct)
  case (1 a f)
  obtain r g where gl: "GetLine f = (r, g)" by (cases "GetLine f") auto
  show ?case
  proof (cases r)
    case None
    with gl show ?thesis by (simp add: main_loop.simps[of a f])
  next
    case (Some line)
    from ProcessString_results_wf[OF "1.prems", of line]
    have "\<exists>res. ProcessString a line = Some res \<and> res \<in> {0, 1, 2}" by auto
    then obtain res where res: "ProcessString a line = Some res" "res \<in> {0, 1, 2}" by blast
    from "1.IH"[OF gl[symmetric] Some[THEN arg_cong[of _ _ id], simplified] res(1) "1.prems"]
    obtain out where out: "main_loop a g = Some out" "\<forall>l. UNKNOWN_ERROR l \<notin> set out"
      by blast
    from gl Some res out have "main_loop a f = Some (report res line @ out)"
      by (simp add: main_loop.simps[of a f])
    with out(2) report_no_unknown[OF res(2)] show ?thesis by auto
  qed
qed

section \<open>The state names after the header\<close>

lemma names_eq:
  assumes "statesNum a = int (length ws)"
    and "\<forall>k < length ws. statesNames a (int k) = ws ! k"
  shows "names a = ws"
proof (rule nth_equalityI)
  show "length (names a) = length ws" using assms(1) by (simp add: names_def)
next
  fix i assume "i < length (names a)"
  then have i: "i < length ws" using assms(1) by (simp add: names_def)
  then have "[0..statesNum a - 1] ! i = int i" using assms(1) by (simp add: nth_upto)
  with i assms show "names a ! i = ws ! i" by (simp add: names_def)
qed

lemma LoadHeader_Ok_stages:
  assumes "LoadHeader a0 path = Ok (a, f)"
  obtains bytes initialState f1 states f2 a1 symbs f3 a2 finishStates a3 where
    "path = Some bytes"
    "GetLine (fopen bytes) = (Some initialState, f1)"
    "GetLine f1 = (Some states, f2)"
    "LoadStates (a0\<lparr>statesNum := 0, transitionsNum := 0\<rparr>) states = Ok a1"
    "StateToIdx a1 initialState \<noteq> - 1"
    "GetLine f2 = (Some symbs, f3)"
    "LoadSymbols (a1\<lparr>startStateIndex := StateToIdx a1 initialState\<rparr>) symbs = Ok a2"
    "GetLine f3 = (Some finishStates, f)"
    "LoadFinish (clear_finish a2 0) finishStates = Ok a3"
    "a = init_table a3"
  using assms unfolding LoadHeader_def Let_def
  by (auto split: option.splits prod.splits outcome.splits if_splits)

lemma LoadHeader_names:
  assumes "LoadHeader a0 (Some bytes) = Ok (a, f)"
    and "GetLine (fopen bytes) = (Some initialState, f1)"
    and "GetLine f1 = (Some states, f2)"
  shows "names a = ReadWords states"
    and "statesNum a = int (length (ReadWords states))"
    and "\<forall>k < length (ReadWords states). statesNames a (int k) = ReadWords states ! k"
    and "startStateIndex a = StateToIdx a initialState"
    and "table_ok a"
proof -
  let ?a00 = "a0\<lparr>statesNum := 0, transitionsNum := 0\<rparr>"
  from assms(1) obtain bytes' initialState' f1' states' f2' a1 symbs f3 a2 finishStates a3 where
    p: "Some bytes = Some bytes'"
    and g1: "GetLine (fopen bytes') = (Some initialState', f1')"
    and g2: "GetLine f1' = (Some states', f2')"
    and s1: "LoadStates ?a00 states' = Ok a1"
    and s2: "LoadSymbols (a1\<lparr>startStateIndex := StateToIdx a1 initialState'\<rparr>) symbs = Ok a2"
    and s3: "LoadFinish (clear_finish a2 0) finishStates = Ok a3"
    and a: "a = init_table a3"
    by (rule LoadHeader_Ok_stages)
  from p g1 g2 assms(2,3) have eq: "initialState' = initialState" "states' = states" by auto
  from LoadStates_result[of ?a00 states, OF _ s1[unfolded eq]]
  have n1: "statesNum a1 = int (length (ReadWords states))"
    and w1: "\<forall>k < length (ReadWords states). statesNames a1 (int k) = ReadWords states ! k"
    by auto
  let ?b1 = "a1\<lparr>startStateIndex := StateToIdx a1 initialState\<rparr>"
  from LoadSymbols_Ok[OF s2[unfolded eq]]
  have fr2: "a2 = ?b1\<lparr>transitions := transitions a2, transitionsNum := transitionsNum a2\<rparr>"
    by blast
  let ?c2 = "clear_finish a2 0"
  from clear_finish_result[of a2 0]
  have fr3: "?c2 = a2\<lparr>finishState := finishState ?c2\<rparr>" by blast
  from LoadFinish_Ok[OF s3]
  have fr4: "a3 = ?c2\<lparr>finishState := finishState a3\<rparr>" by blast
  have e: "statesNum a = statesNum a1" "statesNames a = statesNames a1"
    "startStateIndex a = StateToIdx a1 initialState"
    unfolding a
    using arg_cong[OF fr2, of statesNum] arg_cong[OF fr2, of statesNames]
      arg_cong[OF fr2, of startStateIndex]
      arg_cong[OF fr3, of statesNum] arg_cong[OF fr3, of statesNames]
      arg_cong[OF fr3, of startStateIndex]
      arg_cong[OF fr4, of statesNum] arg_cong[OF fr4, of statesNames]
      arg_cong[OF fr4, of startStateIndex]
    by (simp_all add: init_table_def)
  show "statesNum a = int (length (ReadWords states))" using e n1 by simp
  show "\<forall>k < length (ReadWords states). statesNames a (int k) = ReadWords states ! k"
    using e w1 by simp
  then show "names a = ReadWords states"
    using e n1 by (intro names_eq) simp_all
  show "startStateIndex a = StateToIdx a initialState"
    using e StateToIdx_cong[of a a1 initialState] by simp
  show "table_ok a" unfolding a by (rule table_ok_init)
qed

lemma StateToIdx_first:
  assumes "statesNum a = int (length ws)"
    and "\<forall>k < length ws. statesNames a (int k) = ws ! k"
    and "ws = pre @ n # post" and "n \<notin> set pre"
  shows "StateToIdx a n = int (length pre)"
proof -
  let ?r = "StateToIdx_from a n 0"
  have at: "statesNames a (int (length pre)) = n" "int (length pre) < statesNum a"
    using assms by simp_all
  have "\<not> (\<forall>j. 0 \<le> j \<and> j < statesNum a \<longrightarrow> statesNames a j \<noteq> n)"
    using at by (metis of_nat_0_le_iff)
  with StateToIdx_from_result[of a n 0 ?r, OF refl]
  have "0 \<le> ?r \<and> ?r < statesNum a \<and> statesNames a ?r = n
         \<and> (\<forall>j. 0 \<le> j \<and> j < ?r \<longrightarrow> statesNames a j \<noteq> n)"
    by blast
  then have r: "0 \<le> ?r" "?r < statesNum a" "statesNames a ?r = n"
    and m: "\<forall>j. 0 \<le> j \<and> j < ?r \<longrightarrow> statesNames a j \<noteq> n" by blast+
  have "\<not> int (length pre) < ?r" using m at by (metis of_nat_0_le_iff)
  moreover have "\<not> ?r < int (length pre)"
  proof
    assume l: "?r < int (length pre)"
    with r have k: "nat ?r < length pre" by simp
    then have "nat ?r < length ws" using assms(3) by simp
    with assms(2) have "statesNames a (int (nat ?r)) = ws ! nat ?r" by blast
    with r k assms(3) have "n = pre ! nat ?r" by (simp add: nth_append)
    with k assms(4) show False by (metis nth_mem)
  qed
  ultimately show ?thesis by (simp add: StateToIdx_def)
qed

section \<open>Properties of the loop over the transition lines\<close>

lemma LoadTransitions_LoadLines: "LoadTransitions a f = LoadLines a (GetLines f)"
proof (induction a f rule: LoadTransitions.induct)
  case (1 a f)
  obtain r g where gl: "GetLine f = (r, g)" by (cases "GetLine f") auto
  show ?case
  proof (cases r)
    case None
    with gl show ?thesis by (simp add: LoadTransitions.simps[of a f] GetLines.simps[of f])
  next
    case (Some l)
    show ?thesis
    proof (cases "LoadTransition a l")
      case (Ok b)
      from "1.IH"[OF gl[symmetric] Some[THEN arg_cong[of _ _ id], simplified] Ok]
      show ?thesis using gl Some Ok
        by (simp add: LoadTransitions.simps[of a f] GetLines.simps[of f])
    qed (use gl Some in \<open>simp_all add: LoadTransitions.simps[of a f] GetLines.simps[of f]\<close>)
  qed
qed

lemma LoadLines_append:
  "LoadLines a (xs @ ys) =
     (case LoadLines a xs of
        Undefined \<Rightarrow> Undefined
      | Failed m a' \<Rightarrow> Failed m a'
      | Ok a' \<Rightarrow> LoadLines a' ys)"
  by (induction xs arbitrary: a) (auto split: outcome.splits)

lemma resolve_cong:
  assumes "statesNames b = statesNames a" "statesNum b = statesNum a"
    "transitions b = transitions a" "transitionsNum b = transitionsNum a"
  shows "resolve b l = resolve a l"
proof -
  have 1: "StateToIdx b = StateToIdx a" by (rule ext) (rule StateToIdx_cong[OF assms(1,2)])
  have 2: "TransitionToIdx b = TransitionToIdx a"
    by (rule ext) (rule TransitionToIdx_cong[OF assms(3,4)])
  show ?thesis unfolding resolve_def 1 2 ..
qed

lemma resolve_range:
  assumes "resolve a l = Some (i, j, k)"
  shows "0 \<le> i \<and> i < statesNum a \<and> 0 \<le> j \<and> j < transitionsNum a
         \<and> 0 \<le> k \<and> k < statesNum a"
proof -
  from assms obtain "from" symb to where
    "StateToIdx a from \<noteq> - 1" "i = StateToIdx a from"
    "TransitionToIdx a (first_char symb) \<noteq> - 1" "j = TransitionToIdx a (first_char symb)"
    "StateToIdx a to \<noteq> - 1" "k = StateToIdx a to"
    by (auto simp: resolve_def split: option.splits prod.splits if_splits)
  with StateToIdx_range[of a "from"] StateToIdx_range[of a to]
    TransitionToIdx_range[of a "first_char symb"]
  show ?thesis by simp
qed

lemma LoadTransition_resolve:
  "LoadTransition a l =
     (case resolve a l of
        None \<Rightarrow> (case sscanf_sss l of None \<Rightarrow> Undefined | Some w \<Rightarrow> Failed InvalidTransition a)
      | Some (i, j, k) \<Rightarrow>
          (case table_get (transitionTable a) i j of
             None \<Rightarrow> Undefined
           | Some t \<Rightarrow>
               if t \<noteq> - 1 then Failed DuplicateTransition a
               else Ok (a\<lparr>transitionTable := table_set (transitionTable a) i j k\<rparr>)))"
  by (auto simp: LoadTransition_def resolve_def Let_def split: option.splits prod.splits)

lemma table_get_set:
  assumes "table_get t i j = Some x"
  shows "table_get (table_set t i j v) i' j' =
           (if i' = i \<and> j' = j then Some v else table_get t i' j')"
proof -
  from assms have b: "0 \<le> i" "nat i < length t" "0 \<le> j" "nat j < length (t ! nat i)"
    by (auto simp: table_get_def split: if_splits)
  show ?thesis
  proof (cases "0 \<le> i' \<and> nat i' < length t \<and> 0 \<le> j'")
    case False
    then show ?thesis using b by (auto simp: table_get_def table_set_def)
  next
    case True
    show ?thesis
    proof (cases "i' = i")
      case False
      with True b have "nat i' \<noteq> nat i" by (simp add: eq_nat_nat_iff)
      with True False show ?thesis by (simp add: table_get_def table_set_def)
    next
      case i: True
      show ?thesis
      proof (cases "j' = j")
        case True
        with i b show ?thesis by (simp add: table_get_def table_set_def)
      next
        case False
        with True b have "nat j' \<noteq> nat j" by (simp add: eq_nat_nat_iff)
        with i True False b show ?thesis by (simp add: table_get_def table_set_def)
      qed
    qed
  qed
qed

lemma table_get_init:
  assumes "0 \<le> i" "i < statesNum a" "0 \<le> j" "j < transitionsNum a"
  shows "table_get (transitionTable (init_table a)) i j = Some (- 1)"
  using assms by (simp add: table_get_def init_table_def)

lemma LoadLines_valid:
  "table_ok b \<Longrightarrow>
   \<forall>l \<in> set ls. resolve b l \<noteq> None \<Longrightarrow>
   distinct (map (pair_of b) ls) \<Longrightarrow>
   \<forall>l \<in> set ls. \<forall>i j k. resolve b l = Some (i, j, k) \<longrightarrow>
       table_get (transitionTable b) i j = Some (- 1) \<Longrightarrow>
   \<exists>b'. LoadLines b ls = Ok b' \<and> table_ok b'
      \<and> statesNames b' = statesNames b \<and> statesNum b' = statesNum b
      \<and> transitions b' = transitions b \<and> transitionsNum b' = transitionsNum b
      \<and> (\<forall>l \<in> set ls. \<forall>i j k. resolve b l = Some (i, j, k) \<longrightarrow>
             table_get (transitionTable b') i j = Some k)
      \<and> (\<forall>i j. (\<forall>l \<in> set ls. pair_of b l \<noteq> Some (i, j)) \<longrightarrow>
             table_get (transitionTable b') i j = table_get (transitionTable b) i j)"
proof (induction ls arbitrary: b)
  case Nil
  then show ?case by simp
next
  case (Cons l ls)
  from Cons.prems(2) obtain i j k where r: "resolve b l = Some (i, j, k)" by auto
  then have p: "pair_of b l = Some (i, j)" by (simp add: pair_of_def)
  from Cons.prems(4) r have g: "table_get (transitionTable b) i j = Some (- 1)" by simp
  let ?b1 = "b\<lparr>transitionTable := table_set (transitionTable b) i j k\<rparr>"
  have step: "LoadTransition b l = Ok ?b1"
    using r g by (simp add: LoadTransition_resolve)
  from resolve_range[OF r] have k: "0 \<le> k" "k < statesNum b" by simp_all
  have t1: "table_ok ?b1" using table_set_ok[OF Cons.prems(1) k] .
  have rc: "\<And>x. resolve ?b1 x = resolve b x" by (rule resolve_cong) simp_all
  then have pc: "pair_of ?b1 = pair_of b" by (simp add: pair_of_def fun_eq_iff)
  have gs: "\<And>i' j'. table_get (transitionTable ?b1) i' j' =
              (if i' = i \<and> j' = j then Some k else table_get (transitionTable b) i' j')"
    using table_get_set[OF g] by simp
  have notin: "\<forall>x \<in> set ls. pair_of b x \<noteq> Some (i, j)"
    using Cons.prems(3) p by (auto simp: image_iff)
  have v1: "\<forall>x \<in> set ls. resolve ?b1 x \<noteq> None" using Cons.prems(2) rc by simp
  have d1: "distinct (map (pair_of ?b1) ls)" using Cons.prems(3) pc by simp
  have e1: "\<forall>x \<in> set ls. \<forall>i' j' k'. resolve ?b1 x = Some (i', j', k') \<longrightarrow>
       table_get (transitionTable ?b1) i' j' = Some (- 1)"
  proof (intro ballI allI impI)
    fix x i' j' k' assume x: "x \<in> set ls" and rx: "resolve ?b1 x = Some (i', j', k')"
    then have rx': "resolve b x = Some (i', j', k')" using rc by simp
    then have "pair_of b x = Some (i', j')" by (simp add: pair_of_def)
    with notin x have "\<not> (i' = i \<and> j' = j)" by auto
    moreover from Cons.prems(4) x rx'
    have "table_get (transitionTable b) i' j' = Some (- 1)" by simp
    ultimately show "table_get (transitionTable ?b1) i' j' = Some (- 1)"
      unfolding gs by auto
  qed
  from Cons.IH[OF t1 v1 d1 e1] obtain b' where
    l: "LoadLines ?b1 ls = Ok b'" and t': "table_ok b'"
    and fr: "statesNames b' = statesNames ?b1" "statesNum b' = statesNum ?b1"
      "transitions b' = transitions ?b1" "transitionsNum b' = transitionsNum ?b1"
    and s': "\<forall>x \<in> set ls. \<forall>i' j' k'. resolve ?b1 x = Some (i', j', k') \<longrightarrow>
             table_get (transitionTable b') i' j' = Some k'"
    and o': "\<forall>i' j'. (\<forall>x \<in> set ls. pair_of ?b1 x \<noteq> Some (i', j')) \<longrightarrow>
             table_get (transitionTable b') i' j' = table_get (transitionTable ?b1) i' j'"
    by blast
  have 1: "LoadLines b (l # ls) = Ok b'" using step l by simp
  have 2: "\<forall>x \<in> set (l # ls). \<forall>i' j' k'. resolve b x = Some (i', j', k') \<longrightarrow>
             table_get (transitionTable b') i' j' = Some k'"
  proof (intro ballI allI impI)
    fix x i' j' k' assume x: "x \<in> set (l # ls)" and rx: "resolve b x = Some (i', j', k')"
    show "table_get (transitionTable b') i' j' = Some k'"
    proof (cases "x \<in> set ls")
      case True
      with s' rx rc show ?thesis by simp
    next
      case False
      with x have "x = l" by simp
      with rx r have e: "i' = i" "j' = j" "k' = k" by simp_all
      from notin pc have "\<forall>x \<in> set ls. pair_of ?b1 x \<noteq> Some (i, j)" by simp
      with o' have "table_get (transitionTable b') i j = table_get (transitionTable ?b1) i j"
        by blast
      with e show ?thesis unfolding gs by auto
    qed
  qed
  have 3: "\<forall>i' j'. (\<forall>x \<in> set (l # ls). pair_of b x \<noteq> Some (i', j')) \<longrightarrow>
             table_get (transitionTable b') i' j' = table_get (transitionTable b) i' j'"
  proof (intro allI impI)
    fix i' j' assume h: "\<forall>x \<in> set (l # ls). pair_of b x \<noteq> Some (i', j')"
    then have "\<forall>x \<in> set ls. pair_of ?b1 x \<noteq> Some (i', j')" using pc by simp
    with o' have "table_get (transitionTable b') i' j' = table_get (transitionTable ?b1) i' j'"
      by blast
    moreover from h p have "\<not> (i' = i \<and> j' = j)" by auto
    ultimately show "table_get (transitionTable b') i' j' = table_get (transitionTable b) i' j'"
      unfolding gs by auto
  qed
  from 1 t' fr 2 3 show ?case by simp
qed

section \<open>The header and the transition section together\<close>

lemma LoadHeader_table:
  assumes "LoadHeader a0 path = Ok (a, f)"
  shows "table_ok a"
    and "\<forall>i j. 0 \<le> i \<and> i < statesNum a \<and> 0 \<le> j \<and> j < transitionsNum a \<longrightarrow>
           table_get (transitionTable a) i j = Some (- 1)"
proof -
  from assms obtain a3 where a: "a = init_table a3"
    by (rule LoadHeader_Ok_stages)
  show "table_ok a" unfolding a by (rule table_ok_init)
  have "statesNum a = statesNum a3" "transitionsNum a = transitionsNum a3"
    unfolding a by (simp_all add: init_table_def)
  then show "\<forall>i j. 0 \<le> i \<and> i < statesNum a \<and> 0 \<le> j \<and> j < transitionsNum a \<longrightarrow>
           table_get (transitionTable a) i j = Some (- 1)"
    unfolding a using table_get_init[of _ a3] by simp
qed

lemma LoadAutomaton_header:
  "LoadHeader a0 path = Ok (a, f) \<Longrightarrow> LoadAutomaton a0 path = LoadLines a (GetLines f)"
  by (simp add: LoadAutomaton_def LoadTransitions_LoadLines)

lemma LoadAutomaton_Ok_header:
  assumes "LoadAutomaton a0 path = Ok a"
  obtains ah f where "LoadHeader a0 path = Ok (ah, f)" "LoadTransitions ah f = Ok a"
  using assms unfolding LoadAutomaton_def
  by (auto split: outcome.splits prod.splits)

section \<open>How the loader fails\<close>

lemma LoadSymbols_Failed:
  "LoadSymbols a s = Failed m a' \<Longrightarrow>
     m = SymbolTwice
     \<and> a' = a\<lparr>transitions := transitions a', transitionsNum := transitionsNum a'\<rparr>"
proof (induction a s rule: LoadSymbols.induct)
  case (1 a s)
  show ?case
  proof (cases "ReadWord s")
    case None
    with "1.prems" show ?thesis by (simp add: LoadSymbols.simps[of a s])
  next
    case (Some p)
    obtain w rest where p: "p = (w, rest)" by (cases p)
    let ?c = "first_char w"
    let ?b = "a\<lparr>transitions := (transitions a)(transitionsNum a := ?c),
                transitionsNum := transitionsNum a + 1\<rparr>"
    show ?thesis
    proof (cases "symbol_occurs a ?c 0")
      case True
      with "1.prems" Some p show ?thesis by (auto simp: LoadSymbols.simps[of a s] Let_def)
    next
      case False
      with "1.prems" Some p
      have c: "0 \<le> transitionsNum a \<and> transitionsNum a < MAX_SYMBOLS"
        and r: "LoadSymbols ?b rest = Failed m a'"
        by (auto simp: LoadSymbols.simps[of a s] Let_def split: if_splits)
      from "1.IH"[OF Some p[symmetric] refl False c r]
      have m: "m = SymbolTwice"
        and fr: "a' = ?b\<lparr>transitions := transitions a', transitionsNum := transitionsNum a'\<rparr>"
        by blast+
      have "a' = a\<lparr>transitions := transitions a', transitionsNum := transitionsNum a'\<rparr>"
        using fr by (cases a', cases a) simp
      with m show ?thesis by simp
    qed
  qed
qed

lemma LoadFinish_Failed:
  "LoadFinish a s = Failed m a' \<Longrightarrow>
     (m = FinishNotListed \<or> m = DuplicatedFinish)
     \<and> a' = a\<lparr>finishState := finishState a'\<rparr>"
proof (induction a s rule: LoadFinish.induct)
  case (1 a s)
  show ?case
  proof (cases "ReadWord s")
    case None
    with "1.prems" show ?thesis by (simp add: LoadFinish.simps[of a s])
  next
    case (Some p)
    obtain w rest where p: "p = (w, rest)" by (cases p)
    let ?idx = "StateToIdx a w"
    let ?b = "a\<lparr>finishState := (finishState a)(?idx := 1)\<rparr>"
    show ?thesis
    proof (cases "?idx = - 1 \<or> finishState a ?idx = 1")
      case True
      with "1.prems" Some p show ?thesis
        by (auto simp: LoadFinish.simps[of a s] Let_def split: if_splits)
    next
      case False
      with "1.prems" Some p have r: "LoadFinish ?b rest = Failed m a'"
        by (auto simp: LoadFinish.simps[of a s] Let_def split: if_splits)
      from False have n: "\<not> ?idx = - 1" and d: "\<not> finishState a ?idx = 1" by simp_all
      from "1.IH"[OF Some p[symmetric] refl n d r]
      have m: "m = FinishNotListed \<or> m = DuplicatedFinish"
        and fr: "a' = ?b\<lparr>finishState := finishState a'\<rparr>" by blast+
      have "a' = a\<lparr>finishState := finishState a'\<rparr>"
        using fr by (cases a', cases a) simp
      with m show ?thesis by simp
    qed
  qed
qed

lemma LoadTransition_Failed:
  "LoadTransition a l = Failed m a' \<Longrightarrow>
     (m = InvalidTransition \<or> m = DuplicateTransition) \<and> a' = a"
  unfolding LoadTransition_def
  by (auto simp: Let_def split: option.splits prod.splits if_splits)

lemma LoadTransitions_Failed:
  "LoadTransitions a f = Failed m a' \<Longrightarrow> m = InvalidTransition \<or> m = DuplicateTransition"
proof (induction a f rule: LoadTransitions.induct)
  case (1 a f)
  obtain r g where gl: "GetLine f = (r, g)" by (cases "GetLine f") auto
  show ?case
  proof (cases r)
    case None
    with gl "1.prems" show ?thesis by (simp add: LoadTransitions.simps[of a f])
  next
    case (Some l)
    show ?thesis
    proof (cases "LoadTransition a l")
      case Undefined
      with gl Some "1.prems" show ?thesis by (simp add: LoadTransitions.simps[of a f])
    next
      case (Failed m' b)
      with gl Some "1.prems" have "m' = m" by (simp add: LoadTransitions.simps[of a f])
      with LoadTransition_Failed[OF Failed] show ?thesis by simp
    next
      case (Ok b)
      with gl Some "1.prems" have "LoadTransitions b g = Failed m a'"
        by (simp add: LoadTransitions.simps[of a f])
      from "1.IH"[OF gl[symmetric] Some[THEN arg_cong[of _ _ id], simplified] Ok this]
      show ?thesis .
    qed
  qed
qed

lemma LoadStates_table:
  assumes "LoadStates a s = Ok a'" "0 \<le> statesNum a"
  shows "transitionTable a' = transitionTable a" "transitionsNum a' = transitionsNum a"
proof -
  from LoadStates_result[OF assms(2) assms(1)]
  have fr: "a' = a\<lparr>statesNames := statesNames a', statesNum := statesNum a'\<rparr>" by auto
  show "transitionTable a' = transitionTable a" "transitionsNum a' = transitionsNum a"
    using arg_cong[OF fr, of transitionTable] arg_cong[OF fr, of transitionsNum] by simp_all
qed

lemma LoadSymbols_table:
  assumes "LoadSymbols a s = Ok a' \<or> LoadSymbols a s = Failed m a'"
  shows "transitionTable a' = transitionTable a"
proof -
  from assms LoadSymbols_Ok[of a s a'] LoadSymbols_Failed[of a s m a']
  have fr: "a' = a\<lparr>transitions := transitions a', transitionsNum := transitionsNum a'\<rparr>"
    by blast
  show ?thesis using arg_cong[OF fr, of transitionTable] by simp
qed

lemma clear_finish_table: "transitionTable (clear_finish a i) = transitionTable a"
  using arg_cong[OF clear_finish_result[of a i, THEN conjunct1], of transitionTable] by simp

lemma LoadFinish_table:
  assumes "LoadFinish a s = Ok a' \<or> LoadFinish a s = Failed m a'"
  shows "transitionTable a' = transitionTable a"
proof -
  from assms LoadFinish_Ok[of a s a'] LoadFinish_Failed[of a s m a']
  have fr: "a' = a\<lparr>finishState := finishState a'\<rparr>" by blast
  show ?thesis using arg_cong[OF fr, of transitionTable] by simp
qed

lemma LoadHeader_Failed:
  assumes "LoadHeader a0 path = Failed m a"
  shows "m \<noteq> InvalidTransition \<and> m \<noteq> DuplicateTransition
     \<and> transitionTable a = transitionTable a0
     \<and> (m \<in> {CannotOpen, NoInitialState, NoStates}
          \<longrightarrow> a = a0\<lparr>statesNum := 0, transitionsNum := 0\<rparr>)
     \<and> (m = StartNotListed \<longrightarrow> startStateIndex a = - 1)
     \<and> (m \<in> {StartNotListed, NoSymbols} \<longrightarrow> transitionsNum a = 0)"
proof -
  let ?a00 = "a0\<lparr>statesNum := 0, transitionsNum := 0\<rparr>"
  show ?thesis
  proof (cases path)
    case None
    with assms show ?thesis by (auto simp: LoadHeader_def)
  next
    case (Some bytes)
    obtain r1 f1 where g1: "GetLine (fopen bytes) = (r1, f1)"
      by (cases "GetLine (fopen bytes)") auto
    show ?thesis
    proof (cases r1)
      case None
      with assms Some g1 show ?thesis by (auto simp: LoadHeader_def)
    next
      case i: (Some initialState)
      obtain r2 f2 where g2: "GetLine f1 = (r2, f2)" by (cases "GetLine f1") auto
      show ?thesis
      proof (cases r2)
        case None
        with assms Some g1 i g2 show ?thesis by (auto simp: LoadHeader_def)
      next
        case s: (Some states)
        from assms Some g1 i g2 s LoadStates_not_Failed[of ?a00 states]
        obtain a1 where s1: "LoadStates ?a00 states = Ok a1"
          by (cases "LoadStates ?a00 states") (auto simp: LoadHeader_def)
        from LoadStates_table[OF s1] have t1: "transitionTable a1 = transitionTable a0"
          "transitionsNum a1 = 0" by simp_all
        let ?b1 = "a1\<lparr>startStateIndex := StateToIdx a1 initialState\<rparr>"
        show ?thesis
        proof (cases "StateToIdx a1 initialState = - 1")
          case True
          with assms Some g1 i g2 s s1 have "m = StartNotListed" "a = ?b1"
            by (auto simp: LoadHeader_def Let_def)
          with t1 True show ?thesis by simp
        next
          case False
          obtain r3 f3 where g3: "GetLine f2 = (r3, f3)" by (cases "GetLine f2") auto
          show ?thesis
          proof (cases r3)
            case None
            with assms Some g1 i g2 s s1 False g3 have "m = NoSymbols" "a = ?b1"
              by (auto simp: LoadHeader_def Let_def)
            with t1 show ?thesis by simp
          next
            case y: (Some symbs)
            show ?thesis
            proof (cases "LoadSymbols ?b1 symbs")
              case Undefined
              with assms Some g1 i g2 s s1 False g3 y show ?thesis
                by (auto simp: LoadHeader_def Let_def)
            next
              case (Failed m' a')
              with assms Some g1 i g2 s s1 False g3 y have e: "m' = m" "a' = a"
                by (auto simp: LoadHeader_def Let_def)
              from LoadSymbols_Failed[OF Failed] LoadSymbols_table[of ?b1 symbs a' m'] Failed
                e t1
              show ?thesis by simp
            next
              case (Ok a2)
              from LoadSymbols_table[of ?b1 symbs a2] Ok t1
              have t2: "transitionTable a2 = transitionTable a0" by simp
              let ?c2 = "clear_finish a2 0"
              have t3: "transitionTable ?c2 = transitionTable a0"
                using t2 by (simp add: clear_finish_table)
              obtain r4 f4 where g4: "GetLine f3 = (r4, f4)" by (cases "GetLine f3") auto
              show ?thesis
              proof (cases r4)
                case None
                with assms Some g1 i g2 s s1 False g3 y Ok g4
                have "m = NoFinishStates" "a = ?c2"
                  by (auto simp: LoadHeader_def Let_def)
                with t3 show ?thesis by simp
              next
                case z: (Some finishStates)
                show ?thesis
                proof (cases "LoadFinish ?c2 finishStates")
                  case Undefined
                  with assms Some g1 i g2 s s1 False g3 y Ok g4 z show ?thesis
                    by (auto simp: LoadHeader_def Let_def)
                next
                  case (Failed m' a')
                  with assms Some g1 i g2 s s1 False g3 y Ok g4 z have e: "m' = m" "a' = a"
                    by (auto simp: LoadHeader_def Let_def)
                  from LoadFinish_Failed[OF Failed]
                    LoadFinish_table[of ?c2 finishStates a' m'] Failed e t3
                  show ?thesis by auto
                next
                  case ok: (Ok a3)
                  with assms Some g1 i g2 s s1 False g3 y Ok g4 z show ?thesis
                    by (auto simp: LoadHeader_def Let_def)
                qed
              qed
            qed
          qed
        qed
      qed
    qed
  qed
qed

section \<open>The lookups compute the index of the first occurrence\<close>

lemma index_of_range: "index_of xs x = - 1 \<or> (0 \<le> index_of xs x \<and> index_of xs x < int (length xs))"
  by (induction xs) auto

lemma index_of_absent: "index_of xs x = - 1 \<longleftrightarrow> x \<notin> set xs"
proof (induction xs)
  case Nil
  then show ?case by simp
next
  case (Cons y ys)
  from index_of_range[of ys x] have "index_of ys x + 1 \<noteq> - 1" by auto
  with Cons show ?case by auto
qed

lemma index_of_first: "x \<notin> set pre \<Longrightarrow> index_of (pre @ x # post) x = int (length pre)"
proof (induction pre)
  case Nil
  then show ?case by simp
next
  case (Cons y ys)
  then have "index_of (ys @ x # post) x = int (length ys)" by simp
  with Cons.prems show ?case by auto
qed

lemma index_of_nth: "x \<in> set xs \<Longrightarrow> xs ! nat (index_of xs x) = x"
proof (induction xs)
  case Nil
  then show ?case by simp
next
  case (Cons y ys)
  show ?case
  proof (cases "x = y")
    case True
    then show ?thesis by simp
  next
    case False
    with Cons.prems have m: "x \<in> set ys" by simp
    then have n: "index_of ys x \<noteq> - 1" by (simp add: index_of_absent)
    with index_of_range[of ys x] have "0 \<le> index_of ys x" by auto
    then have "nat (index_of ys x + 1) = Suc (nat (index_of ys x))" by simp
    with False n Cons.IH[OF m] show ?thesis by simp
  qed
qed

text \<open>The loops of the two lookups compute \<open>index_of\<close>.\<close>

lemma first_match_index_of:
  assumes "(r = - 1 \<and> (\<forall>j. 0 \<le> j \<and> j < n \<longrightarrow> f j \<noteq> x))
     \<or> (0 \<le> r \<and> r < n \<and> f r = x \<and> (\<forall>j. 0 \<le> j \<and> j < r \<longrightarrow> f j \<noteq> x))"
  shows "index_of (map f [0..n - 1]) x = r"
  using assms
proof
  assume "r = - 1 \<and> (\<forall>j. 0 \<le> j \<and> j < n \<longrightarrow> f j \<noteq> x)"
  then have "r = - 1" "x \<notin> set (map f [0..n - 1])" by auto
  then show ?thesis by (simp only: index_of_absent[symmetric])
next
  assume h: "0 \<le> r \<and> r < n \<and> f r = x \<and> (\<forall>j. 0 \<le> j \<and> j < r \<longrightarrow> f j \<noteq> x)"
  then have "[0..n - 1] = [0..r - 1] @ r # [r + 1..n - 1]"
    using upto_split3[of 0 r "n - 1"] by simp
  then have "map f [0..n - 1] = map f [0..r - 1] @ x # map f [r + 1..n - 1]"
    using h by simp
  moreover have "x \<notin> set (map f [0..r - 1])" using h by auto
  ultimately show ?thesis using h by (simp add: index_of_first)
qed

lemma StateToIdx_index_of: "StateToIdx a s = index_of (names a) s"
  unfolding names_def StateToIdx_def
  by (rule first_match_index_of[symmetric]) (use StateToIdx_from_result[of a s 0, OF refl] in auto)

lemma TransitionToIdx_index_of: "TransitionToIdx a c = index_of (symbols a) c"
  unfolding symbols_def TransitionToIdx_def
  by (rule first_match_index_of[symmetric])
     (use TransitionToIdx_from_result[of a c 0, OF refl] in auto)

lemma index_of_inj: "inj_on (index_of xs) (set xs)"
proof (rule inj_onI)
  fix x y assume x: "x \<in> set xs" and y: "y \<in> set xs"
    and e: "index_of xs x = index_of xs y"
  have "x = xs ! nat (index_of xs x)" using x by (rule index_of_nth[symmetric])
  also have "\<dots> = xs ! nat (index_of xs y)" unfolding e by (rule refl)
  also have "\<dots> = y" using y by (rule index_of_nth)
  finally show "x = y" .
qed

lemma distinct_index_of:
  "set ws \<subseteq> set xs \<Longrightarrow> distinct (map (index_of xs) ws) = distinct ws"
  using inj_on_subset[OF index_of_inj, of "set ws" xs] by (auto simp: distinct_map)

lemma index_of_image:
  "x \<in> set xs \<Longrightarrow> set ws \<subseteq> set xs \<Longrightarrow>
   index_of xs x \<in> index_of xs ` set ws \<longleftrightarrow> x \<in> set ws"
  using inj_on_image_mem_iff[OF index_of_inj, of x xs "set ws"] by simp


section \<open>The loops of the header in closed form\<close>

lemma store_at_Nil: "store_at f n [] = f"
  by (auto simp: store_at_def fun_eq_iff)

lemma store_at_Cons: "store_at (f(n := w)) (n + 1) ws = store_at f n (w # ws)"
proof
  fix i
  show "store_at (f(n := w)) (n + 1) ws i = store_at f n (w # ws) i"
  proof (cases "i = n")
    case True
    then show ?thesis by (simp add: store_at_def)
  next
    case False
    show ?thesis
    proof (cases "n + 1 \<le> i \<and> i < n + 1 + int (length ws)")
      case True
      then have "nat (i - n) = Suc (nat (i - (n + 1)))" by linarith
      with True False show ?thesis by (simp add: store_at_def)
    next
      case f: False
      with False show ?thesis by (auto simp: store_at_def)
    qed
  qed
qed

lemma store_at_snoc: "0 \<le> n \<Longrightarrow> (store_at f 0 xs)(int (length xs) := x) = store_at f 0 (xs @ [x])"
  by (auto simp: store_at_def fun_eq_iff nth_append)

lemma map_store_at: "map (store_at f 0 xs) [0..int (length xs) - 1] = xs"
proof (rule nth_equalityI)
  show "length (map (store_at f 0 xs) [0..int (length xs) - 1]) = length xs" by simp
next
  fix i assume "i < length (map (store_at f 0 xs) [0..int (length xs) - 1])"
  then have i: "i < length xs" by simp
  then have "[0..int (length xs) - 1] ! i = int i" by (simp add: nth_upto)
  with i show "map (store_at f 0 xs) [0..int (length xs) - 1] ! i = xs ! i"
    by (simp add: store_at_def)
qed

lemma LoadStates_closed:
  "0 \<le> statesNum a \<Longrightarrow> statesNum a \<le> MAX_STATES \<Longrightarrow>
   LoadStates a s =
     (if statesNum a + int (length (ReadWords s)) \<le> MAX_STATES
      then Ok (states_stored a (ReadWords s))
      else Undefined)"
proof (induction a s rule: LoadStates.induct)
  case (1 a s)
  show ?case
  proof (cases "ReadWord s")
    case None
    with "1.prems" show ?thesis
      by (simp add: LoadStates.simps[of a s] ReadWords.simps[of s] store_at_Nil
          states_stored_def)
  next
    case (Some p)
    obtain w rest where p: "p = (w, rest)" by (cases p)
    have rw: "ReadWords s = w # ReadWords rest"
      using Some p by (simp add: ReadWords.simps[of s])
    show ?thesis
    proof (cases "statesNum a < MAX_STATES")
      case False
      with "1.prems" Some p rw show ?thesis by (simp add: LoadStates.simps[of a s])
    next
      case True
      let ?b = "a\<lparr>statesNames := (statesNames a)(statesNum a := w),
                  statesNum := statesNum a + 1\<rparr>"
      have c: "0 \<le> statesNum a \<and> statesNum a < MAX_STATES" using True "1.prems" by simp
      have b: "0 \<le> statesNum ?b" "statesNum ?b \<le> MAX_STATES" using c by simp_all
      have "LoadStates a s = LoadStates ?b rest"
        using c Some p by (simp add: LoadStates.simps[of a s])
      also note "1.IH"[OF Some p[symmetric] c b]
      finally show ?thesis
        by (simp add: rw store_at_Cons add.assoc states_stored_def)
    qed
  qed
qed

lemma symbol_occurs_iff:
  "symbol_occurs a c t \<longleftrightarrow> (\<exists>j. t \<le> j \<and> j < transitionsNum a \<and> transitions a j = c)"
proof (induction a c t rule: symbol_occurs.induct)
  case (1 a c t)
  show ?case
  proof (cases "t < transitionsNum a")
    case False
    then show ?thesis by (auto simp: symbol_occurs.simps[of a c t])
  next
    case True
    show ?thesis
    proof (cases "transitions a t = c")
      case t: True
      with True show ?thesis by (auto simp: symbol_occurs.simps[of a c t])
    next
      case False
      have "(\<exists>j. t \<le> j \<and> j < transitionsNum a \<and> transitions a j = c)
            \<longleftrightarrow> (\<exists>j. t + 1 \<le> j \<and> j < transitionsNum a \<and> transitions a j = c)"
      proof
        assume "\<exists>j. t \<le> j \<and> j < transitionsNum a \<and> transitions a j = c"
        then obtain j where j: "t \<le> j" "j < transitionsNum a" "transitions a j = c" by blast
        with False have "j \<noteq> t" by auto
        with j show "\<exists>j. t + 1 \<le> j \<and> j < transitionsNum a \<and> transitions a j = c"
          by (intro exI[of _ j]) auto
      next
        assume "\<exists>j. t + 1 \<le> j \<and> j < transitionsNum a \<and> transitions a j = c"
        then obtain j where "t + 1 \<le> j" "j < transitionsNum a" "transitions a j = c" by blast
        then show "\<exists>j. t \<le> j \<and> j < transitionsNum a \<and> transitions a j = c"
          by (intro exI[of _ j]) auto
      qed
      with "1.IH"[OF True False] True False show ?thesis
        by (simp add: symbol_occurs.simps[of a c t])
    qed
  qed
qed

lemma symbol_occurs_symbols: "symbol_occurs a c 0 \<longleftrightarrow> c \<in> set (symbols a)"
  unfolding symbol_occurs_iff symbols_def by (auto simp: image_iff)

lemma upto_snoc: "0 \<le> n \<Longrightarrow> [0..n] = [0..n - 1] @ [n]"
  using upto_rec2[of 0 n] by simp

lemma symbols_store_one:
  assumes "0 \<le> transitionsNum a"
  shows "symbols (a\<lparr>transitions := (transitions a)(transitionsNum a := c),
                    transitionsNum := transitionsNum a + 1\<rparr>) = symbols a @ [c]"
proof -
  have "map ((transitions a)(transitionsNum a := c)) [0..transitionsNum a - 1]
        = map (transitions a) [0..transitionsNum a - 1]"
    by (rule map_cong) auto
  then show ?thesis using assms by (simp add: symbols_def upto_snoc[OF assms])
qed

lemma symbols_stored_Nil: "symbols_stored a [] = a"
  by (simp add: symbols_stored_def store_at_Nil)

lemma symbols_stored_Cons:
  "symbols_stored (a\<lparr>transitions := (transitions a)(transitionsNum a := c),
                    transitionsNum := transitionsNum a + 1\<rparr>) cs = symbols_stored a (c # cs)"
  by (simp add: symbols_stored_def store_at_Cons add.assoc)

lemma LoadSymbols_cases:
  "0 \<le> transitionsNum a \<Longrightarrow> transitionsNum a \<le> MAX_SYMBOLS \<Longrightarrow>
   (distinct (map first_char (ReadWords s))
      \<and> set (map first_char (ReadWords s)) \<inter> set (symbols a) = {}
      \<and> transitionsNum a + int (length (ReadWords s)) \<le> MAX_SYMBOLS
      \<and> LoadSymbols a s = Ok (symbols_stored a (map first_char (ReadWords s))))
   \<or> (\<exists>pre c post. map first_char (ReadWords s) = pre @ c # post
         \<and> distinct pre \<and> set pre \<inter> set (symbols a) = {}
         \<and> c \<in> set (symbols a) \<union> set pre
         \<and> transitionsNum a + int (length pre) \<le> MAX_SYMBOLS
         \<and> LoadSymbols a s = Failed SymbolTwice (symbols_stored a pre))
   \<or> (\<exists>pre c post. map first_char (ReadWords s) = pre @ c # post
         \<and> distinct (pre @ [c]) \<and> set (pre @ [c]) \<inter> set (symbols a) = {}
         \<and> transitionsNum a + int (length pre) = MAX_SYMBOLS
         \<and> LoadSymbols a s = Undefined)"
proof (induction a s rule: LoadSymbols.induct)
  case (1 a s)
  show ?case
  proof (cases "ReadWord s")
    case None
    with "1.prems" show ?thesis
      by (simp add: LoadSymbols.simps[of a s] ReadWords.simps[of s] symbols_stored_Nil)
  next
    case (Some p)
    obtain w rest where p: "p = (w, rest)" by (cases p)
    let ?c = "first_char w"
    let ?cs = "map first_char (ReadWords rest)"
    have rw: "map first_char (ReadWords s) = ?c # ?cs"
      using Some p by (simp add: ReadWords.simps[of s])
    have len: "int (length (ReadWords s)) = 1 + int (length ?cs)"
      using Some p by (simp add: ReadWords.simps[of s])
    let ?b = "a\<lparr>transitions := (transitions a)(transitionsNum a := ?c),
                transitionsNum := transitionsNum a + 1\<rparr>"
    show ?thesis
    proof (cases "symbol_occurs a ?c 0")
      case True
      then have "?c \<in> set (symbols a)" by (simp add: symbol_occurs_symbols)
      moreover have "LoadSymbols a s = Failed SymbolTwice (symbols_stored a [])"
        using True Some p by (simp add: LoadSymbols.simps[of a s] symbols_stored_Nil)
      ultimately have "map first_char (ReadWords s) = [] @ ?c # ?cs
         \<and> distinct ([] :: char list) \<and> set ([] :: char list) \<inter> set (symbols a) = {}
         \<and> ?c \<in> set (symbols a) \<union> set ([] :: char list)
         \<and> transitionsNum a + int (length ([] :: char list)) \<le> MAX_SYMBOLS
         \<and> LoadSymbols a s = Failed SymbolTwice (symbols_stored a [])"
        using rw "1.prems" by simp
      then show ?thesis by blast
    next
      case False
      then have notin: "?c \<notin> set (symbols a)" by (simp add: symbol_occurs_symbols)
      show ?thesis
      proof (cases "transitionsNum a < MAX_SYMBOLS")
        case f: False
        with "1.prems" have "transitionsNum a = MAX_SYMBOLS" by simp
        moreover have "LoadSymbols a s = Undefined"
          using False f Some p by (simp add: LoadSymbols.simps[of a s])
        ultimately have "map first_char (ReadWords s) = [] @ ?c # ?cs
           \<and> distinct ([] @ [?c]) \<and> set ([] @ [?c]) \<inter> set (symbols a) = {}
           \<and> transitionsNum a + int (length ([] :: char list)) = MAX_SYMBOLS
           \<and> LoadSymbols a s = Undefined"
          using rw notin by simp
        then show ?thesis by blast
      next
        case True
        have c: "0 \<le> transitionsNum a \<and> transitionsNum a < MAX_SYMBOLS"
          using True "1.prems" by simp
        have b: "0 \<le> transitionsNum ?b" "transitionsNum ?b \<le> MAX_SYMBOLS" using c by simp_all
        have step: "LoadSymbols a s = LoadSymbols ?b rest"
          using c False Some p by (simp add: LoadSymbols.simps[of a s] Let_def)
        have sb: "symbols ?b = symbols a @ [?c]"
          using "1.prems"(1) by (rule symbols_store_one)
        have nb: "transitionsNum ?b = transitionsNum a + 1" by simp
        from "1.IH"[OF Some p[symmetric] refl False c b]
        consider
          (ok) "distinct ?cs" "set ?cs \<inter> set (symbols ?b) = {}"
            "transitionsNum ?b + int (length (ReadWords rest)) \<le> MAX_SYMBOLS"
            "LoadSymbols ?b rest = Ok (symbols_stored ?b ?cs)"
        | (twice) pre c' post where "?cs = pre @ c' # post" "distinct pre"
            "set pre \<inter> set (symbols ?b) = {}" "c' \<in> set (symbols ?b) \<union> set pre"
            "transitionsNum ?b + int (length pre) \<le> MAX_SYMBOLS"
            "LoadSymbols ?b rest = Failed SymbolTwice (symbols_stored ?b pre)"
        | (over) pre c' post where "?cs = pre @ c' # post" "distinct (pre @ [c'])"
            "set (pre @ [c']) \<inter> set (symbols ?b) = {}"
            "transitionsNum ?b + int (length pre) = MAX_SYMBOLS"
            "LoadSymbols ?b rest = Undefined"
          by blast
        then show ?thesis
        proof cases
          case ok
          have "distinct (map first_char (ReadWords s))
              \<and> set (map first_char (ReadWords s)) \<inter> set (symbols a) = {}
              \<and> transitionsNum a + int (length (ReadWords s)) \<le> MAX_SYMBOLS
              \<and> LoadSymbols a s = Ok (symbols_stored a (map first_char (ReadWords s)))"
            using ok notin unfolding rw sb nb len step symbols_stored_Cons by auto
          then show ?thesis by blast
        next
          case twice
          have "map first_char (ReadWords s) = (?c # pre) @ c' # post
              \<and> distinct (?c # pre) \<and> set (?c # pre) \<inter> set (symbols a) = {}
              \<and> c' \<in> set (symbols a) \<union> set (?c # pre)
              \<and> transitionsNum a + int (length (?c # pre)) \<le> MAX_SYMBOLS
              \<and> LoadSymbols a s = Failed SymbolTwice (symbols_stored a (?c # pre))"
            using twice notin unfolding rw sb nb step symbols_stored_Cons by auto
          then show ?thesis by blast
        next
          case over
          have "map first_char (ReadWords s) = (?c # pre) @ c' # post
              \<and> distinct ((?c # pre) @ [c']) \<and> set ((?c # pre) @ [c']) \<inter> set (symbols a) = {}
              \<and> transitionsNum a + int (length (?c # pre)) = MAX_SYMBOLS
              \<and> LoadSymbols a s = Undefined"
            using over notin unfolding rw sb nb step by auto
          then show ?thesis by blast
        qed
      qed
    qed
  qed
qed

lemma clear_finish_closed:
  "clear_finish a i =
     a\<lparr>finishState := (\<lambda>j. if i \<le> j \<and> j < statesNum a then 0 else finishState a j)\<rparr>"
proof (induction a i rule: clear_finish.induct)
  case (1 a i)
  show ?case
  proof (cases "i < statesNum a")
    case False
    then have "(\<lambda>j. if i \<le> j \<and> j < statesNum a then 0 else finishState a j) = finishState a"
      by (auto simp: fun_eq_iff)
    with False show ?thesis by (simp add: clear_finish.simps[of a i])
  next
    case True
    let ?b = "a\<lparr>finishState := (finishState a)(i := 0)\<rparr>"
    have "(\<lambda>j. if i + 1 \<le> j \<and> j < statesNum ?b then 0 else finishState ?b j)
          = (\<lambda>j. if i \<le> j \<and> j < statesNum a then 0 else finishState a j)"
      using True by (auto simp: fun_eq_iff)
    with "1.IH"[OF True] True show ?thesis by (simp add: clear_finish.simps[of a i])
  qed
qed

lemma marked_Nil: "marked a [] = a"
  by (simp add: marked_def)

lemma StateToIdx_finish_update [simp]:
  "StateToIdx (a\<lparr>finishState := F\<rparr>) = StateToIdx a"
  by (rule ext) (rule StateToIdx_cong, simp_all)

lemma marked_Cons:
  "marked (a\<lparr>finishState := (finishState a)(StateToIdx a w := 1)\<rparr>) ws = marked a (w # ws)"
  by (auto simp: marked_def fun_eq_iff)

lemma markable_Cons:
  "markable a (w # ws) \<longleftrightarrow>
     StateToIdx a w \<noteq> - 1 \<and> finishState a (StateToIdx a w) \<noteq> 1
     \<and> markable (a\<lparr>finishState := (finishState a)(StateToIdx a w := 1)\<rparr>) ws"
  by (auto simp: markable_def image_iff)

lemma LoadFinish_cases:
  "(markable a (ReadWords s) \<and> LoadFinish a s = Ok (marked a (ReadWords s)))
   \<or> (\<exists>pre w post. ReadWords s = pre @ w # post \<and> markable a pre
         \<and> StateToIdx a w = - 1
         \<and> LoadFinish a s = Failed FinishNotListed (marked a pre))
   \<or> (\<exists>pre w post. ReadWords s = pre @ w # post \<and> markable a pre
         \<and> StateToIdx a w \<noteq> - 1
         \<and> (finishState a (StateToIdx a w) = 1 \<or> StateToIdx a w \<in> StateToIdx a ` set pre)
         \<and> LoadFinish a s = Failed DuplicatedFinish (marked a pre))"
proof (induction a s rule: LoadFinish.induct)
  case (1 a s)
  show ?case
  proof (cases "ReadWord s")
    case None
    then show ?thesis
      by (simp add: LoadFinish.simps[of a s] ReadWords.simps[of s] marked_Nil markable_def)
  next
    case (Some p)
    obtain w rest where p: "p = (w, rest)" by (cases p)
    have rw: "ReadWords s = w # ReadWords rest"
      using Some p by (simp add: ReadWords.simps[of s])
    let ?k = "StateToIdx a w"
    let ?b = "a\<lparr>finishState := (finishState a)(?k := 1)\<rparr>"
    have m0: "markable a []" by (simp add: markable_def)
    show ?thesis
    proof (cases "?k = - 1")
      case True
      then have "LoadFinish a s = Failed FinishNotListed (marked a [])"
        using Some p by (simp add: LoadFinish.simps[of a s] marked_Nil)
      with True rw m0 have "ReadWords s = [] @ w # ReadWords rest \<and> markable a []
         \<and> StateToIdx a w = - 1
         \<and> LoadFinish a s = Failed FinishNotListed (marked a [])" by simp
      then show ?thesis by blast
    next
      case False
      show ?thesis
      proof (cases "finishState a ?k = 1")
        case True
        then have "LoadFinish a s = Failed DuplicatedFinish (marked a [])"
          using False Some p by (simp add: LoadFinish.simps[of a s] marked_Nil)
        with True False rw m0 have "ReadWords s = [] @ w # ReadWords rest \<and> markable a []
           \<and> StateToIdx a w \<noteq> - 1
           \<and> (finishState a (StateToIdx a w) = 1
               \<or> StateToIdx a w \<in> StateToIdx a ` set [])
           \<and> LoadFinish a s = Failed DuplicatedFinish (marked a [])" by simp
        then show ?thesis by blast
      next
        case f: False
        have step': "LoadFinish a s = LoadFinish ?b rest"
          using False f Some p by (simp add: LoadFinish.simps[of a s] Let_def)
        from "1.IH"[OF Some p[symmetric] refl False f]
        consider
          (ok) "markable ?b (ReadWords rest)"
            "LoadFinish ?b rest = Ok (marked ?b (ReadWords rest))"
        | (missing) pre w' post where "ReadWords rest = pre @ w' # post" "markable ?b pre"
            "StateToIdx ?b w' = - 1"
            "LoadFinish ?b rest = Failed FinishNotListed (marked ?b pre)"
        | (twice) pre w' post where "ReadWords rest = pre @ w' # post" "markable ?b pre"
            "StateToIdx ?b w' \<noteq> - 1"
            "finishState ?b (StateToIdx ?b w') = 1
               \<or> StateToIdx ?b w' \<in> StateToIdx ?b ` set pre"
            "LoadFinish ?b rest = Failed DuplicatedFinish (marked ?b pre)"
          by blast
        then show ?thesis
        proof cases
          case ok
          have "markable a (ReadWords s) \<and> LoadFinish a s = Ok (marked a (ReadWords s))"
            using ok False f unfolding rw step' marked_Cons markable_Cons by simp
          then show ?thesis by blast
        next
          case missing
          have "ReadWords s = (w # pre) @ w' # post \<and> markable a (w # pre)
              \<and> StateToIdx a w' = - 1
              \<and> LoadFinish a s = Failed FinishNotListed (marked a (w # pre))"
            using missing False f unfolding rw step' marked_Cons markable_Cons by simp
          then show ?thesis by blast
        next
          case twice
          have "ReadWords s = (w # pre) @ w' # post \<and> markable a (w # pre)
              \<and> StateToIdx a w' \<noteq> - 1
              \<and> (finishState a (StateToIdx a w') = 1
                  \<or> StateToIdx a w' \<in> StateToIdx a ` set (w # pre))
              \<and> LoadFinish a s = Failed DuplicatedFinish (marked a (w # pre))"
            using twice False f unfolding rw step' marked_Cons markable_Cons
            by (auto split: if_splits)
          then show ?thesis by blast
        qed
      qed
    qed
  qed
qed


section \<open>The loop over the transition lines in closed form\<close>

lemma LoadLines_frame:
  "LoadLines b ls = Ok b' \<Longrightarrow> b' = b\<lparr>transitionTable := transitionTable b'\<rparr>"
proof (induction ls arbitrary: b)
  case Nil
  then show ?case by simp
next
  case (Cons l ls)
  then obtain c where c: "LoadTransition b l = Ok c" and r: "LoadLines c ls = Ok b'"
    by (auto split: outcome.splits)
  from LoadTransition_Ok[OF c] obtain t where fc: "c = b\<lparr>transitionTable := t\<rparr>" by blast
  from Cons.IH[OF r] have "b' = c\<lparr>transitionTable := transitionTable b'\<rparr>" .
  then show ?case by (subst (asm) fc) simp
qed

lemma table_eqI:
  assumes "length t = nat n"
    and "\<forall>row \<in> set t. length row = nat m"
    and "\<forall>i j. 0 \<le> i \<and> i < n \<and> 0 \<le> j \<and> j < m \<longrightarrow> table_get t i j = Some (e i j)"
  shows "t = map (\<lambda>i. map (\<lambda>j. e i j) [0..m - 1]) [0..n - 1]"
proof (rule nth_equalityI)
  show "length t = length (map (\<lambda>i. map (\<lambda>j. e i j) [0..m - 1]) [0..n - 1])"
    using assms(1) by simp
next
  fix i assume i: "i < length t"
  then have in': "int i < n" using assms(1) by simp
  then have ui: "[0..n - 1] ! i = int i" by (simp add: nth_upto)
  have li: "length (t ! i) = nat m" using i assms(2) by simp
  have "t ! i = map (\<lambda>j. e (int i) j) [0..m - 1]"
  proof (rule nth_equalityI)
    show "length (t ! i) = length (map (\<lambda>j. e (int i) j) [0..m - 1])" using li by simp
  next
    fix j assume j: "j < length (t ! i)"
    then have jm: "int j < m" using li by simp
    then have uj: "[0..m - 1] ! j = int j" by (simp add: nth_upto)
    from assms(3) in' jm have "table_get t (int i) (int j) = Some (e (int i) (int j))" by simp
    with i j have "t ! i ! j = e (int i) (int j)" by (simp add: table_get_def)
    with uj j li show "t ! i ! j = map (\<lambda>j. e (int i) j) [0..m - 1] ! j" by simp
  qed
  with ui i assms(1) show "t ! i = map (\<lambda>i. map (\<lambda>j. e i j) [0..m - 1]) [0..n - 1] ! i"
    by simp
qed

lemma entry_of_none:
  "\<forall>l \<in> set ls. pair_of a l \<noteq> Some (i, j) \<Longrightarrow> entry_of a ls i j = - 1"
proof -
  assume "\<forall>l \<in> set ls. pair_of a l \<noteq> Some (i, j)"
  then have "List.find (\<lambda>l. pair_of a l = Some (i, j)) ls = None"
    by (simp add: find_None_iff)
  then show ?thesis by (simp add: entry_of_def)
qed

lemma entry_of_some:
  assumes "l \<in> set ls" "resolve a l = Some (i, j, k)" "distinct (map (pair_of a) ls)"
  shows "entry_of a ls i j = k"
proof -
  have p: "pair_of a l = Some (i, j)" using assms(2) by (simp add: pair_of_def)
  with assms(1) have "List.find (\<lambda>l. pair_of a l = Some (i, j)) ls \<noteq> None"
    by (auto simp: find_None_iff)
  then obtain l' where f: "List.find (\<lambda>l. pair_of a l = Some (i, j)) ls = Some l'" by auto
  then have "l' \<in> set ls" "pair_of a l' = Some (i, j)"
    by (auto simp: find_Some_iff)
  with assms(1,3) p have "l' = l"
    by (metis distinct_map inj_on_def)
  with f assms(2) show ?thesis by (simp add: entry_of_def)
qed

lemma init_table_stored: "init_table a = transitions_stored a []"
proof -
  have "replicate (nat (statesNum a)) (replicate (nat (transitionsNum a)) (- 1))
        = table_of a []"
    unfolding table_of_def
  proof (rule table_eqI)
    show "\<forall>i j. 0 \<le> i \<and> i < statesNum a \<and> 0 \<le> j \<and> j < transitionsNum a \<longrightarrow>
          table_get (replicate (nat (statesNum a)) (replicate (nat (transitionsNum a)) (- 1))) i j
            = Some (entry_of a [] i j)"
      by (simp add: table_get_def entry_of_def)
  qed simp_all
  then show ?thesis by (simp add: init_table_def transitions_stored_def)
qed

lemma LoadLines_valid_closed:
  assumes "table_ok b"
    and "\<forall>i j. 0 \<le> i \<and> i < statesNum b \<and> 0 \<le> j \<and> j < transitionsNum b \<longrightarrow>
           table_get (transitionTable b) i j = Some (- 1)"
    and "valid_lines b ls"
  shows "LoadLines b ls = Ok (transitions_stored b ls)"
proof -
  have v: "\<forall>l \<in> set ls. resolve b l \<noteq> None" and d: "distinct (map (pair_of b) ls)"
    using assms(3) by (simp_all add: valid_lines_def)
  have e: "\<forall>l \<in> set ls. \<forall>i j k. resolve b l = Some (i, j, k) \<longrightarrow>
       table_get (transitionTable b) i j = Some (- 1)"
    using assms(2) resolve_range by blast
  from LoadLines_valid[OF assms(1) v d e] obtain b' where
    l: "LoadLines b ls = Ok b'" and t': "table_ok b'"
    and n: "statesNum b' = statesNum b" "transitionsNum b' = transitionsNum b"
    and s: "\<forall>l \<in> set ls. \<forall>i j k. resolve b l = Some (i, j, k) \<longrightarrow>
             table_get (transitionTable b') i j = Some k"
    and o: "\<forall>i j. (\<forall>l \<in> set ls. pair_of b l \<noteq> Some (i, j)) \<longrightarrow>
             table_get (transitionTable b') i j = table_get (transitionTable b) i j"
    by blast
  have "transitionTable b' = table_of b ls"
    unfolding table_of_def
  proof (rule table_eqI)
    show "length (transitionTable b') = nat (statesNum b)"
      using t' n by (simp add: table_ok_def)
    show "\<forall>row \<in> set (transitionTable b'). length row = nat (transitionsNum b)"
      using t' n by (simp add: table_ok_def)
    show "\<forall>i j. 0 \<le> i \<and> i < statesNum b \<and> 0 \<le> j \<and> j < transitionsNum b \<longrightarrow>
          table_get (transitionTable b') i j = Some (entry_of b ls i j)"
    proof (intro allI impI)
      fix i j assume r: "0 \<le> i \<and> i < statesNum b \<and> 0 \<le> j \<and> j < transitionsNum b"
      show "table_get (transitionTable b') i j = Some (entry_of b ls i j)"
      proof (cases "\<forall>l \<in> set ls. pair_of b l \<noteq> Some (i, j)")
        case True
        with o have "table_get (transitionTable b') i j = table_get (transitionTable b) i j"
          by blast
        with assms(2) r entry_of_none[OF True] show ?thesis by simp
      next
        case False
        then obtain l where l: "l \<in> set ls" "pair_of b l = Some (i, j)" by blast
        then obtain k where k: "resolve b l = Some (i, j, k)"
          by (auto simp: pair_of_def split: option.splits)
        with s l have "table_get (transitionTable b') i j = Some k" by blast
        with entry_of_some[OF l(1) k d] show ?thesis by simp
      qed
    qed
  qed
  with LoadLines_frame[OF l] have "b' = transitions_stored b ls"
    by (simp add: transitions_stored_def)
  with l show ?thesis by simp
qed

lemma first_invalid_line:
  "valid_lines a ls
   \<or> (\<exists>pre l post. ls = pre @ l # post \<and> valid_lines a pre \<and> \<not> valid_lines a (pre @ [l]))"
proof (induction ls rule: rev_induct)
  case Nil
  then show ?case by (simp add: valid_lines_def)
next
  case (snoc x xs)
  from snoc.IH show ?case
  proof
    assume v: "valid_lines a xs"
    show ?thesis
    proof (cases "valid_lines a (xs @ [x])")
      case True
      then show ?thesis by blast
    next
      case False
      with v have "xs @ [x] = xs @ x # [] \<and> valid_lines a xs \<and> \<not> valid_lines a (xs @ [x])"
        by simp
      then show ?thesis by blast
    qed
  next
    assume "\<exists>pre l post. xs = pre @ l # post \<and> valid_lines a pre
              \<and> \<not> valid_lines a (pre @ [l])"
    then obtain pre l post where "xs = pre @ l # post" "valid_lines a pre"
      "\<not> valid_lines a (pre @ [l])" by blast
    then have "xs @ [x] = pre @ l # (post @ [x]) \<and> valid_lines a pre
      \<and> \<not> valid_lines a (pre @ [l])" by simp
    then show ?thesis by blast
  qed
qed

lemma table_get_table_of:
  assumes "0 \<le> i" "i < statesNum a" "0 \<le> j" "j < transitionsNum a"
  shows "table_get (table_of a ls) i j = Some (entry_of a ls i j)"
proof -
  have i: "nat i < length [0..statesNum a - 1]" "[0..statesNum a - 1] ! nat i = i"
    using assms by (simp_all add: nth_upto)
  have j: "nat j < length [0..transitionsNum a - 1]" "[0..transitionsNum a - 1] ! nat j = j"
    using assms by (simp_all add: nth_upto)
  from i j assms show ?thesis by (simp add: table_get_def table_of_def)
qed

lemma resolve_transitions_stored [simp]:
  "resolve (transitions_stored a ls) = resolve a"
  by (rule ext) (rule resolve_cong, simp_all add: transitions_stored_def)

lemma LoadLines_cases:
  assumes "table_ok b"
    and "\<forall>i j. 0 \<le> i \<and> i < statesNum b \<and> 0 \<le> j \<and> j < transitionsNum b \<longrightarrow>
           table_get (transitionTable b) i j = Some (- 1)"
  shows "(valid_lines b ls \<and> LoadLines b ls = Ok (transitions_stored b ls))
   \<or> (\<exists>pre l post. ls = pre @ l # post \<and> valid_lines b pre \<and> sscanf_sss l = None
         \<and> LoadLines b ls = Undefined)
   \<or> (\<exists>pre l post. ls = pre @ l # post \<and> valid_lines b pre \<and> sscanf_sss l \<noteq> None
         \<and> resolve b l = None
         \<and> LoadLines b ls = Failed InvalidTransition (transitions_stored b pre))
   \<or> (\<exists>pre l post. ls = pre @ l # post \<and> valid_lines b pre \<and> resolve b l \<noteq> None
         \<and> pair_of b l \<in> pair_of b ` set pre
         \<and> LoadLines b ls = Failed DuplicateTransition (transitions_stored b pre))"
  using first_invalid_line[of b ls]
proof
  assume v: "valid_lines b ls"
  with LoadLines_valid_closed[OF assms v] show ?thesis by blast
next
  assume "\<exists>pre l post. ls = pre @ l # post \<and> valid_lines b pre \<and> \<not> valid_lines b (pre @ [l])"
  then obtain pre l post where ls: "ls = pre @ l # post" and v: "valid_lines b pre"
    and n: "\<not> valid_lines b (pre @ [l])" by blast
  let ?b' = "transitions_stored b pre"
  have pre: "LoadLines b pre = Ok ?b'" by (rule LoadLines_valid_closed[OF assms v])
  have run: "LoadLines b ls =
      (case LoadTransition ?b' l of
         Undefined \<Rightarrow> Undefined | Failed m a' \<Rightarrow> Failed m a' | Ok a' \<Rightarrow> LoadLines a' post)"
    unfolding ls by (simp add: LoadLines_append pre)
  show ?thesis
  proof (cases "resolve b l")
    case None
    show ?thesis
    proof (cases "sscanf_sss l")
      case n2: None
      with None have "LoadTransition ?b' l = Undefined"
        by (simp add: LoadTransition_resolve)
      with run have "LoadLines b ls = Undefined" by simp
      with ls v n2 show ?thesis by blast
    next
      case (Some w)
      with None have "LoadTransition ?b' l = Failed InvalidTransition ?b'"
        by (simp add: LoadTransition_resolve)
      with run have "LoadLines b ls = Failed InvalidTransition ?b'" by simp
      with ls v None Some show ?thesis by blast
    qed
  next
    case (Some r)
    obtain i j k where r: "r = (i, j, k)" by (cases r)
    with Some have res: "resolve b l = Some (i, j, k)" by simp
    then have p: "pair_of b l = Some (i, j)" by (simp add: pair_of_def)
    from n v res have "pair_of b l \<in> pair_of b ` set pre"
      by (auto simp: valid_lines_def)
    with p obtain l' where l': "l' \<in> set pre" "pair_of b l' = Some (i, j)"
      by (auto simp: image_iff)
    then obtain k' where k': "resolve b l' = Some (i, j, k')"
      by (auto simp: pair_of_def split: option.splits)
    from v have d: "distinct (map (pair_of b) pre)" by (simp add: valid_lines_def)
    from resolve_range[OF res] have rg: "0 \<le> i" "i < statesNum b" "0 \<le> j" "j < transitionsNum b"
      by simp_all
    from resolve_range[OF k'] have "k' \<noteq> - 1" by auto
    moreover have "table_get (transitionTable ?b') i j = Some k'"
      using table_get_table_of[OF rg, of pre] entry_of_some[OF l'(1) k' d]
      by (simp add: transitions_stored_def)
    ultimately have "LoadTransition ?b' l = Failed DuplicateTransition ?b'"
      using res by (simp add: LoadTransition_resolve)
    with run have "LoadLines b ls = Failed DuplicateTransition ?b'" by simp
    moreover have "resolve b l \<noteq> None" using res by simp
    moreover note \<open>pair_of b l \<in> pair_of b ` set pre\<close>
    ultimately show ?thesis using ls v by blast
  qed
qed

lemma pair_of_transitions_stored [simp]: "pair_of (transitions_stored a ls) = pair_of a"
  by (rule ext) (simp add: pair_of_def)

lemma valid_lines_transitions_stored [simp]:
  "valid_lines (transitions_stored a xs) = valid_lines a"
  by (rule ext) (simp add: valid_lines_def)

lemma transitions_stored_twice [simp]:
  "transitions_stored (transitions_stored a xs) ys = transitions_stored a ys"
proof -
  have "entry_of (transitions_stored a xs) ys = entry_of a ys"
    unfolding entry_of_def resolve_transitions_stored pair_of_transitions_stored
    by (rule refl)
  then have "table_of (transitions_stored a xs) ys = table_of a ys"
    by (simp add: table_of_def transitions_stored_def)
  then show ?thesis by (simp add: transitions_stored_def)
qed

lemma table_get_stored:
  assumes "valid_lines a ls" "l \<in> set ls" "resolve a l = Some (i, j, k)"
  shows "table_get (transitionTable (transitions_stored a ls)) i j = Some k"
proof -
  from assms(1) have d: "distinct (map (pair_of a) ls)" by (simp add: valid_lines_def)
  from resolve_range[OF assms(3)]
  have rg: "0 \<le> i" "i < statesNum a" "0 \<le> j" "j < transitionsNum a" by simp_all
  show ?thesis
    using table_get_table_of[OF rg, of ls] entry_of_some[OF assms(2,3) d]
    by (simp add: transitions_stored_def)
qed

lemma LoadLines_duplicate:
  assumes ok: "table_ok b"
    and e: "\<forall>i j. 0 \<le> i \<and> i < statesNum b \<and> 0 \<le> j \<and> j < transitionsNum b \<longrightarrow>
           table_get (transitionTable b) i j = Some (- 1)"
    and v: "valid_lines b pre" and l': "l' \<in> set pre"
    and k': "resolve b l' = Some (i, j, k')" and res: "resolve b l = Some (i, j, k)"
  shows "LoadLines b (pre @ l # post) = Failed DuplicateTransition (transitions_stored b pre)"
proof -
  let ?b' = "transitions_stored b pre"
  have pre: "LoadLines b pre = Ok ?b'" by (rule LoadLines_valid_closed[OF ok e v])
  from resolve_range[OF k'] have "k' \<noteq> - 1" by auto
  moreover have "table_get (transitionTable ?b') i j = Some k'"
    using v l' k' by (rule table_get_stored)
  ultimately have "LoadTransition ?b' l = Failed DuplicateTransition ?b'"
    using res by (simp add: LoadTransition_resolve)
  then show ?thesis by (simp add: LoadLines_append pre)
qed


section \<open>The loader by cases on the lines of the file\<close>

lemma GetLines_None: "GetLine f = (None, f') \<Longrightarrow> GetLines f = []"
  by (simp add: GetLines.simps[of f])

lemma GetLines_Some: "GetLine f = (Some l, f') \<Longrightarrow> GetLines f = l # GetLines f'"
  by (simp add: GetLines.simps[of f])

lemma names_start_set [simp]: "names (start_set a0 l1 l2) = ReadWords l2"
  using map_store_at[of "statesNames a0" "ReadWords l2"]
  by (simp add: names_def start_set_def states_stored_def zeroed_def)

lemma statesNum_start_set [simp]:
  "statesNum (start_set a0 l1 l2) = int (length (ReadWords l2))"
  by (simp add: start_set_def states_stored_def zeroed_def)

lemma symbols_start_set [simp]: "symbols (start_set a0 l1 l2) = []"
  by (simp add: symbols_def start_set_def states_stored_def zeroed_def)

lemma transitionsNum_start_set [simp]: "transitionsNum (start_set a0 l1 l2) = 0"
  by (simp add: start_set_def states_stored_def zeroed_def)

lemma names_symbols_stored [simp]: "names (symbols_stored a cs) = names a"
  by (simp add: names_def symbols_stored_def)

lemma statesNum_symbols_stored [simp]: "statesNum (symbols_stored a cs) = statesNum a"
  by (simp add: symbols_stored_def)

lemma symbols_symbols_stored:
  "transitionsNum a = 0 \<Longrightarrow> symbols (symbols_stored a cs) = cs"
  using map_store_at[of "transitions a" cs] by (simp add: symbols_def symbols_stored_def)

lemma names_finals_marked [simp]: "names (finals_marked a ws) = names a"
  by (simp add: names_def finals_marked_def)

lemma symbols_finals_marked [simp]: "symbols (finals_marked a ws) = symbols a"
  by (simp add: symbols_def finals_marked_def)

lemma clear_finish_marked: "clear_finish a 0 = finals_marked a []"
proof -
  have "(\<lambda>j. if 0 \<le> j \<and> j < statesNum a then 0 else finishState a j)
        = (\<lambda>i. if 0 \<le> i \<and> i < statesNum a
                then (if i \<in> index_of (names a) ` set [] then 1 else 0)
                else finishState a i)"
    by (simp add: fun_eq_iff)
  then show ?thesis by (simp add: clear_finish_closed finals_marked_def)
qed

lemma index_of_names_range:
  assumes "index_of (names a) w \<noteq> - 1"
  shows "0 \<le> index_of (names a) w \<and> index_of (names a) w < statesNum a"
proof -
  from index_of_range[of "names a" w] assms
  have "0 \<le> index_of (names a) w" "index_of (names a) w < int (length (names a))" by auto
  moreover have "length (names a) = nat (statesNum a)" by (simp add: names_def)
  ultimately show ?thesis by (auto split: if_splits)
qed

lemma markable_cleared:
  "markable (finals_marked a []) ws \<longleftrightarrow>
     set ws \<subseteq> set (names a) \<and> distinct (map (index_of (names a)) ws)"
proof -
  have idx: "StateToIdx (finals_marked a []) = index_of (names a)"
    by (rule ext) (simp add: StateToIdx_index_of)
  have z: "\<And>w. index_of (names a) w \<noteq> - 1 \<Longrightarrow>
             finishState (finals_marked a []) (index_of (names a) w) \<noteq> 1"
    using index_of_names_range by (simp add: finals_marked_def)
  show ?thesis
    unfolding markable_def idx using z by (auto simp: index_of_absent)
qed

lemma marked_cleared:
  assumes "set ws \<subseteq> set (names a)"
  shows "marked (finals_marked a []) ws = finals_marked a ws"
proof -
  have idx: "StateToIdx (finals_marked a []) = index_of (names a)"
    by (rule ext) (simp add: StateToIdx_index_of)
  have r: "\<And>i. i \<in> index_of (names a) ` set ws \<Longrightarrow> 0 \<le> i \<and> i < statesNum a"
    using assms index_of_names_range by (auto simp: index_of_absent)
  have "(\<lambda>i. if i \<in> index_of (names a) ` set ws then 1
              else finishState (finals_marked a []) i)
        = (\<lambda>i. if 0 \<le> i \<and> i < statesNum a
                then (if i \<in> index_of (names a) ` set ws then 1 else 0)
                else finishState a i)"
    using r by (auto simp: fun_eq_iff finals_marked_def)
  then show ?thesis unfolding marked_def idx by (simp add: finals_marked_def)
qed

lemma names_states_stored_zeroed: "names (states_stored (zeroed a0) ws) = ws"
  using map_store_at[of "statesNames a0" ws]
  by (simp add: names_def states_stored_def zeroed_def)

lemma LoadHeader_cases:
  "(GetLines (fopen bytes) = []
      \<and> LoadHeader a0 (Some bytes) = Failed NoInitialState (zeroed a0))
   \<or> (\<exists>l1. GetLines (fopen bytes) = [l1]
      \<and> LoadHeader a0 (Some bytes) = Failed NoStates (zeroed a0))
   \<or> (\<exists>l1 l2 r. GetLines (fopen bytes) = l1 # l2 # r
      \<and> MAX_STATES < int (length (ReadWords l2))
      \<and> LoadHeader a0 (Some bytes) = Undefined)
   \<or> (\<exists>l1 l2 r. GetLines (fopen bytes) = l1 # l2 # r
      \<and> int (length (ReadWords l2)) \<le> MAX_STATES \<and> l1 \<notin> set (ReadWords l2)
      \<and> LoadHeader a0 (Some bytes) = Failed StartNotListed (start_set a0 l1 l2))
   \<or> (\<exists>l1 l2. GetLines (fopen bytes) = [l1, l2] \<and> states_ok l1 l2
      \<and> LoadHeader a0 (Some bytes) = Failed NoSymbols (start_set a0 l1 l2))
   \<or> (\<exists>l1 l2 l3 r pre c post. GetLines (fopen bytes) = l1 # l2 # l3 # r \<and> states_ok l1 l2
      \<and> map first_char (ReadWords l3) = pre @ c # post \<and> distinct pre \<and> c \<in> set pre
      \<and> int (length pre) \<le> MAX_SYMBOLS
      \<and> LoadHeader a0 (Some bytes)
          = Failed SymbolTwice (symbols_stored (start_set a0 l1 l2) pre))
   \<or> (\<exists>l1 l2 l3 r pre c post. GetLines (fopen bytes) = l1 # l2 # l3 # r \<and> states_ok l1 l2
      \<and> map first_char (ReadWords l3) = pre @ c # post \<and> distinct (pre @ [c])
      \<and> int (length pre) = MAX_SYMBOLS
      \<and> LoadHeader a0 (Some bytes) = Undefined)
   \<or> (\<exists>l1 l2 l3. GetLines (fopen bytes) = [l1, l2, l3] \<and> states_ok l1 l2 \<and> symbols_ok l3
      \<and> LoadHeader a0 (Some bytes) = Failed NoFinishStates (header_built a0 l1 l2 l3 []))
   \<or> (\<exists>l1 l2 l3 l4 r pre w post. GetLines (fopen bytes) = l1 # l2 # l3 # l4 # r
      \<and> states_ok l1 l2 \<and> symbols_ok l3
      \<and> ReadWords l4 = pre @ w # post \<and> set pre \<subseteq> set (ReadWords l2)
      \<and> distinct pre \<and> w \<notin> set (ReadWords l2)
      \<and> LoadHeader a0 (Some bytes)
          = Failed FinishNotListed
              (finals_marked (symbols_stored (start_set a0 l1 l2)
                 (map first_char (ReadWords l3))) pre))
   \<or> (\<exists>l1 l2 l3 l4 r pre w post. GetLines (fopen bytes) = l1 # l2 # l3 # l4 # r
      \<and> states_ok l1 l2 \<and> symbols_ok l3
      \<and> ReadWords l4 = pre @ w # post \<and> set pre \<subseteq> set (ReadWords l2)
      \<and> distinct pre \<and> w \<in> set pre
      \<and> LoadHeader a0 (Some bytes)
          = Failed DuplicatedFinish
              (finals_marked (symbols_stored (start_set a0 l1 l2)
                 (map first_char (ReadWords l3))) pre))
   \<or> (\<exists>l1 l2 l3 l4 f. GetLines (fopen bytes) = l1 # l2 # l3 # l4 # GetLines f
      \<and> states_ok l1 l2 \<and> symbols_ok l3 \<and> finals_ok l2 l4
      \<and> LoadHeader a0 (Some bytes)
          = Ok (transitions_stored (header_built a0 l1 l2 l3 l4) [], f))"
proof -
  let ?A0 = "a0\<lparr>statesNum := 0, transitionsNum := 0\<rparr>"
  let ?ls = "GetLines (fopen bytes)"
  have z: "zeroed a0 = ?A0" by (simp add: zeroed_def)
  obtain r1 f1 where g1: "GetLine (fopen bytes) = (r1, f1)"
    by (cases "GetLine (fopen bytes)") auto
  show ?thesis
  proof (cases r1)
    case None
    with g1 have "?ls = []" by (simp add: GetLines_None)
    moreover have "LoadHeader a0 (Some bytes) = Failed NoInitialState (zeroed a0)"
      using g1 None by (simp add: LoadHeader_def z)
    ultimately show ?thesis by simp
  next
    case l1: (Some l1)
    note g1 = g1[unfolded l1]
    have ls1: "?ls = l1 # GetLines f1" using g1 by (rule GetLines_Some)
    obtain r2 f2 where g2: "GetLine f1 = (r2, f2)" by (cases "GetLine f1") auto
    show ?thesis
    proof (cases r2)
      case None
      with g2 have "?ls = [l1]" using ls1 by (simp add: GetLines_None)
      moreover have "LoadHeader a0 (Some bytes) = Failed NoStates (zeroed a0)"
        using g1 g2 None by (simp add: LoadHeader_def z)
      ultimately show ?thesis
        apply - apply (rule disjI2, rule disjI1) by simp
    next
      case l2: (Some l2)
      note g2 = g2[unfolded l2]
      have ls2: "?ls = l1 # l2 # GetLines f2" using ls1 GetLines_Some[OF g2] by simp
      let ?N = "ReadWords l2"
      have st: "LoadStates ?A0 l2 =
          (if int (length ?N) \<le> MAX_STATES then Ok (states_stored ?A0 ?N) else Undefined)"
        using LoadStates_closed[of ?A0 l2] by (simp add: MAX_STATES_def)
      show ?thesis
      proof (cases "int (length ?N) \<le> MAX_STATES")
        case False
        then have "LoadHeader a0 (Some bytes) = Undefined"
          using g1 g2 st by (simp add: LoadHeader_def)
        with ls2 False show ?thesis
          apply - apply (rule disjI2, rule disjI2, rule disjI1) by simp
      next
        case cap: True
        let ?a1 = "states_stored ?A0 ?N"
        have s1: "LoadStates ?A0 l2 = Ok ?a1" using st cap by simp
        have idx: "StateToIdx ?a1 l1 = index_of ?N l1"
          using names_states_stored_zeroed[of a0 ?N] by (simp add: StateToIdx_index_of z)
        let ?b1 = "start_set a0 l1 l2"
        have b1: "?a1\<lparr>startStateIndex := StateToIdx ?a1 l1\<rparr> = ?b1"
          by (simp add: idx start_set_def z)
        show ?thesis
        proof (cases "l1 \<in> set ?N")
          case False
          then have m1: "index_of ?N l1 = - 1" by (simp add: index_of_absent)
          then have "startStateIndex ?b1 = - 1" by (simp add: start_set_def)
          then have "LoadHeader a0 (Some bytes) = Failed StartNotListed ?b1"
            using g1 g2 s1 by (simp add: LoadHeader_def Let_def b1)
          with ls2 cap False show ?thesis
            apply - apply (rule disjI2, rule disjI2, rule disjI2, rule disjI1) by simp
        next
          case listed: True
          then have so: "states_ok l1 l2" using cap by (simp add: states_ok_def)
          from listed have "index_of ?N l1 \<noteq> - 1" by (simp add: index_of_absent)
          then have ns: "startStateIndex ?b1 \<noteq> - 1" by (simp add: start_set_def)
          obtain r3 f3 where g3: "GetLine f2 = (r3, f3)" by (cases "GetLine f2") auto
          show ?thesis
          proof (cases r3)
            case None
            with g3 have "?ls = [l1, l2]" using ls2 by (simp add: GetLines_None)
            moreover have "LoadHeader a0 (Some bytes) = Failed NoSymbols ?b1"
              using g1 g2 s1 ns g3 None by (simp add: LoadHeader_def Let_def b1)
            ultimately show ?thesis using so
              apply - apply (rule disjI2, rule disjI2, rule disjI2, rule disjI2, rule disjI1) by simp
          next
            case l3: (Some l3)
            note g3 = g3[unfolded l3]
            have ls3: "?ls = l1 # l2 # l3 # GetLines f3" using ls2 GetLines_Some[OF g3] by simp
            let ?S = "map first_char (ReadWords l3)"
            have hd: "\<And>X. LoadSymbols ?b1 l3 = X \<Longrightarrow>
                LoadHeader a0 (Some bytes) =
                  (case X of Undefined \<Rightarrow> Undefined | Failed m a \<Rightarrow> Failed m a
                   | Ok a \<Rightarrow>
                      (case GetLine f3 of
                         (None, f) \<Rightarrow> Failed NoFinishStates (clear_finish a 0)
                       | (Some finishStates, f) \<Rightarrow>
                           (case LoadFinish (clear_finish a 0) finishStates of
                              Undefined \<Rightarrow> Undefined
                            | Failed m a \<Rightarrow> Failed m a
                            | Ok a \<Rightarrow> Ok (init_table a, f))))"
              using g1 g2 s1 ns g3 by (simp add: LoadHeader_def Let_def b1 split: outcome.split)
            from LoadSymbols_cases[of ?b1 l3]
            consider
              (ok) "distinct ?S" "int (length (ReadWords l3)) \<le> MAX_SYMBOLS"
                "LoadSymbols ?b1 l3 = Ok (symbols_stored ?b1 ?S)"
            | (twice) pre c post where "?S = pre @ c # post" "distinct pre" "c \<in> set pre"
                "int (length pre) \<le> MAX_SYMBOLS"
                "LoadSymbols ?b1 l3 = Failed SymbolTwice (symbols_stored ?b1 pre)"
            | (over) pre c post where "?S = pre @ c # post" "distinct (pre @ [c])"
                "int (length pre) = MAX_SYMBOLS" "LoadSymbols ?b1 l3 = Undefined"
              by (auto simp: MAX_SYMBOLS_def)
            then show ?thesis
            proof cases
              case twice
              from hd[OF twice(5)] ls3 so twice(1-4) show ?thesis
                apply - apply (rule disjI2, rule disjI2, rule disjI2, rule disjI2, rule disjI2, rule disjI1) by auto
            next
              case over
              from hd[OF over(4)] ls3 so over(1-3) show ?thesis
                apply - apply (rule disjI2, rule disjI2, rule disjI2, rule disjI2, rule disjI2, rule disjI2, rule disjI1) by auto
            next
              case ok
              then have sy: "symbols_ok l3" by (simp add: symbols_ok_def)
              let ?a2 = "symbols_stored ?b1 ?S"
              have na2: "names ?a2 = ?N" by simp
              obtain r4 f4 where g4: "GetLine f3 = (r4, f4)" by (cases "GetLine f3") auto
              show ?thesis
              proof (cases r4)
                case None
                with g4 have "?ls = [l1, l2, l3]" using ls3 by (simp add: GetLines_None)
                moreover have "LoadHeader a0 (Some bytes)
                    = Failed NoFinishStates (header_built a0 l1 l2 l3 [])"
                  using hd[OF ok(3)] g4 None
                  by (simp add: clear_finish_marked header_built_def ReadWords.simps[of "[]"]
                      ReadWord_def sscanf_s_def)
                ultimately show ?thesis using so sy
                  apply - apply (rule disjI2, rule disjI2, rule disjI2, rule disjI2, rule disjI2, rule disjI2, rule disjI2, rule disjI1) by simp
              next
                case l4: (Some l4)
                note g4 = g4[unfolded l4]
                have ls4: "?ls = l1 # l2 # l3 # l4 # GetLines f4"
                  using ls3 GetLines_Some[OF g4] by simp
                let ?c2 = "finals_marked ?a2 []"
                have hd2: "\<And>X. LoadFinish ?c2 l4 = X \<Longrightarrow>
                    LoadHeader a0 (Some bytes) =
                      (case X of Undefined \<Rightarrow> Undefined | Failed m a \<Rightarrow> Failed m a
                       | Ok a \<Rightarrow> Ok (init_table a, f4))"
                  using hd[OF ok(3)] g4 by (simp add: clear_finish_marked)
                have idx2: "StateToIdx ?c2 = index_of ?N"
                  by (rule ext) (simp add: StateToIdx_index_of)
                from LoadFinish_cases[of ?c2 l4]
                consider
                  (fin) "markable ?c2 (ReadWords l4)"
                    "LoadFinish ?c2 l4 = Ok (marked ?c2 (ReadWords l4))"
                | (missing) pre w post where "ReadWords l4 = pre @ w # post" "markable ?c2 pre"
                    "StateToIdx ?c2 w = - 1"
                    "LoadFinish ?c2 l4 = Failed FinishNotListed (marked ?c2 pre)"
                | (dup) pre w post where "ReadWords l4 = pre @ w # post" "markable ?c2 pre"
                    "StateToIdx ?c2 w \<noteq> - 1"
                    "finishState ?c2 (StateToIdx ?c2 w) = 1
                       \<or> StateToIdx ?c2 w \<in> StateToIdx ?c2 ` set pre"
                    "LoadFinish ?c2 l4 = Failed DuplicatedFinish (marked ?c2 pre)"
                  by blast
                then show ?thesis
                proof cases
                  case fin
                  from fin(1) have fo: "set (ReadWords l4) \<subseteq> set ?N"
                    "distinct (map (index_of ?N) (ReadWords l4))"
                    by (simp_all add: markable_cleared)
                  then have "finals_ok l2 l4" by (simp add: finals_ok_def distinct_index_of)
                  moreover have "marked ?c2 (ReadWords l4) = header_built a0 l1 l2 l3 l4"
                    using fo(1) by (simp add: marked_cleared header_built_def)
                  then have "LoadHeader a0 (Some bytes)
                      = Ok (transitions_stored (header_built a0 l1 l2 l3 l4) [], f4)"
                    using hd2[OF fin(2)] by (simp add: init_table_stored)
                  ultimately show ?thesis using ls4 so sy
                    apply - apply (rule disjI2, rule disjI2, rule disjI2, rule disjI2, rule disjI2, rule disjI2, rule disjI2, rule disjI2, rule disjI2, rule disjI2) by auto
                next
                  case missing
                  from missing(2) have po: "set pre \<subseteq> set ?N" "distinct pre"
                    by (auto simp: markable_cleared distinct_index_of)
                  from missing(3) have w: "w \<notin> set ?N"
                    by (simp add: idx2 index_of_absent)
                  have "LoadHeader a0 (Some bytes)
                      = Failed FinishNotListed (finals_marked ?a2 pre)"
                    using hd2[OF missing(4)] po(1) by (simp add: marked_cleared)
                  with ls4 so sy missing(1) po w show ?thesis
                    apply - apply (rule disjI2, rule disjI2, rule disjI2, rule disjI2, rule disjI2, rule disjI2, rule disjI2, rule disjI2, rule disjI1) by auto
                next
                  case dup
                  from dup(2) have po: "set pre \<subseteq> set ?N" "distinct pre"
                    by (auto simp: markable_cleared distinct_index_of)
                  from dup(3) have w: "w \<in> set ?N" "index_of ?N w \<noteq> - 1"
                    by (simp_all add: idx2 index_of_absent)
                  from index_of_names_range[of ?a2 w] w(2)
                  have "finishState ?c2 (index_of ?N w) \<noteq> 1"
                    by (simp add: finals_marked_def)
                  with dup(4) have "index_of ?N w \<in> index_of ?N ` set pre"
                    by (simp add: idx2)
                  with w(1) po(1) have i: "w \<in> set pre" by (simp add: index_of_image)
                  have "LoadHeader a0 (Some bytes)
                      = Failed DuplicatedFinish (finals_marked ?a2 pre)"
                    using hd2[OF dup(5)] po(1) by (simp add: marked_cleared)
                  with ls4 so sy dup(1) po i show ?thesis
                    apply - apply (rule disjI2, rule disjI2, rule disjI2, rule disjI2, rule disjI2, rule disjI2, rule disjI2, rule disjI2, rule disjI2, rule disjI1) by auto
                qed
              qed
            qed
          qed
        qed
      qed
    qed
  qed
qed

lemma LoadAutomaton_valid_header:
  assumes ls: "GetLines (fopen bytes) = l1 # l2 # l3 # l4 # ts"
    and so: "states_ok l1 l2" and sy: "symbols_ok l3" and fo: "finals_ok l2 l4"
  shows "LoadAutomaton a0 (Some bytes)
         = LoadLines (transitions_stored (header_built a0 l1 l2 l3 l4) []) ts"
proof -
  let ?S = "map first_char (ReadWords l3)"
  let ?N = "ReadWords l2"
  have twice: "\<And>pre c post. ?S = pre @ c # post \<Longrightarrow> c \<notin> set pre"
    using sy by (auto simp: symbols_ok_def)
  have over: "\<And>pre c post. ?S = pre @ c # post \<Longrightarrow> int (length pre) \<noteq> MAX_SYMBOLS"
  proof
    fix pre c post assume e: "?S = pre @ c # post" and m: "int (length pre) = MAX_SYMBOLS"
    have "length (ReadWords l3) = length ?S" by simp
    also have "\<dots> = length pre + 1 + length post" unfolding e by simp
    finally show False using sy m by (simp add: symbols_ok_def)
  qed
  have missing: "\<And>pre w post. ReadWords l4 = pre @ w # post \<Longrightarrow> w \<in> set ?N"
    using fo by (auto simp: finals_ok_def)
  have dup: "\<And>pre w post. ReadWords l4 = pre @ w # post \<Longrightarrow> w \<notin> set pre"
    using fo by (auto simp: finals_ok_def)
  from LoadHeader_cases[of bytes a0]
  have "\<exists>f. ts = GetLines f \<and> LoadHeader a0 (Some bytes)
          = Ok (transitions_stored (header_built a0 l1 l2 l3 l4) [], f)"
    apply (elim disjE exE conjE)
    using ls so sy fo twice over missing dup
    by (simp_all add: states_ok_def)
  then show ?thesis by (auto simp: LoadAutomaton_header)
qed

lemma names_header_built [simp]: "names (header_built a0 l1 l2 l3 l4) = ReadWords l2"
  by (simp add: header_built_def)

lemma symbols_header_built [simp]:
  "symbols (header_built a0 l1 l2 l3 l4) = map first_char (ReadWords l3)"
  by (simp add: header_built_def symbols_symbols_stored)

lemma statesNum_header_built [simp]:
  "statesNum (header_built a0 l1 l2 l3 l4) = int (length (ReadWords l2))"
  by (simp add: header_built_def finals_marked_def)

lemma transitionsNum_header_built [simp]:
  "transitionsNum (header_built a0 l1 l2 l3 l4) = int (length (ReadWords l3))"
  by (simp add: header_built_def finals_marked_def symbols_stored_def)

lemma startStateIndex_header_built [simp]:
  "startStateIndex (header_built a0 l1 l2 l3 l4) = index_of (ReadWords l2) l1"
  by (simp add: header_built_def finals_marked_def symbols_stored_def start_set_def)


lemma names_transitions_stored [simp]: "names (transitions_stored a ls) = names a"
  by (simp add: names_def transitions_stored_def)

lemma symbols_transitions_stored [simp]: "symbols (transitions_stored a ls) = symbols a"
  by (simp add: symbols_def transitions_stored_def)

lemma LoadAutomaton_lines_cases:
  assumes ls: "GetLines (fopen bytes) = l1 # l2 # l3 # l4 # ts"
    and so: "states_ok l1 l2" and sy: "symbols_ok l3" and fo: "finals_ok l2 l4"
  shows "(valid_lines (header_built a0 l1 l2 l3 l4) ts
          \<and> LoadAutomaton a0 (Some bytes)
              = Ok (transitions_stored (header_built a0 l1 l2 l3 l4) ts))
     \<or> (\<exists>pre l post. ts = pre @ l # post
          \<and> valid_lines (header_built a0 l1 l2 l3 l4) pre
          \<and> sscanf_sss l = None
          \<and> LoadAutomaton a0 (Some bytes) = Undefined)
     \<or> (\<exists>pre l post. ts = pre @ l # post
          \<and> valid_lines (header_built a0 l1 l2 l3 l4) pre
          \<and> sscanf_sss l \<noteq> None \<and> resolve (header_built a0 l1 l2 l3 l4) l = None
          \<and> LoadAutomaton a0 (Some bytes)
              = Failed InvalidTransition
                  (transitions_stored (header_built a0 l1 l2 l3 l4) pre))
     \<or> (\<exists>pre l post. ts = pre @ l # post
          \<and> valid_lines (header_built a0 l1 l2 l3 l4) pre
          \<and> resolve (header_built a0 l1 l2 l3 l4) l \<noteq> None
          \<and> pair_of (header_built a0 l1 l2 l3 l4) l
                \<in> pair_of (header_built a0 l1 l2 l3 l4) ` set pre
          \<and> LoadAutomaton a0 (Some bytes)
              = Failed DuplicateTransition
                  (transitions_stored (header_built a0 l1 l2 l3 l4) pre))"
proof -
  let ?A = "header_built a0 l1 l2 l3 l4"
  let ?b = "transitions_stored ?A []"
  have b: "?b = init_table ?A" by (simp add: init_table_stored)
  have ok: "table_ok ?b" unfolding b by (rule table_ok_init)
  have n: "statesNum ?b = statesNum ?A" "transitionsNum ?b = transitionsNum ?A"
    by (simp_all add: transitions_stored_def)
  have e: "\<forall>i j. 0 \<le> i \<and> i < statesNum ?b \<and> 0 \<le> j \<and> j < transitionsNum ?b \<longrightarrow>
           table_get (transitionTable ?b) i j = Some (- 1)"
    unfolding n unfolding b by (simp add: table_get_init)
  have "LoadAutomaton a0 (Some bytes) = LoadLines ?b ts"
    using ls so sy fo by (rule LoadAutomaton_valid_header)
  with LoadLines_cases[OF ok e, of ts] show ?thesis by simp
qed

lemma header_table_ready:
  "table_ok (transitions_stored (header_built a0 l1 l2 l3 l4) [])"
  "\<forall>i j. 0 \<le> i \<and> i < statesNum (transitions_stored (header_built a0 l1 l2 l3 l4) [])
         \<and> 0 \<le> j \<and> j < transitionsNum (transitions_stored (header_built a0 l1 l2 l3 l4) [])
     \<longrightarrow> table_get (transitionTable (transitions_stored (header_built a0 l1 l2 l3 l4) []))
           i j = Some (- 1)"
proof -
  let ?A = "header_built a0 l1 l2 l3 l4"
  let ?b = "transitions_stored ?A []"
  have b: "?b = init_table ?A" by (simp add: init_table_stored)
  show "table_ok ?b" unfolding b by (rule table_ok_init)
  have n: "statesNum ?b = statesNum ?A" "transitionsNum ?b = transitionsNum ?A"
    by (simp_all add: transitions_stored_def)
  show "\<forall>i j. 0 \<le> i \<and> i < statesNum ?b \<and> 0 \<le> j \<and> j < transitionsNum ?b \<longrightarrow>
           table_get (transitionTable ?b) i j = Some (- 1)"
    unfolding n unfolding b by (simp add: table_get_init)
qed



section \<open>Evaluating the loader on more files\<close>

lemma bad_line_file_fails:
  "LoadAutomaton blank (Some bad_line_file) = Failed InvalidTransition dup_trans_header"
  by (simp add: eval_simps Let_def bad_line_file_def dup_trans_header_def fun_eq_iff)

lemma bad_then_dup_file_fails:
  "LoadAutomaton blank (Some bad_then_dup_file) = Failed InvalidTransition dup_trans_dfa"
  by (simp add: eval_simps Let_def bad_then_dup_file_def dup_trans_header_def dup_trans_dfa_def
      fun_eq_iff)

lemma dup_trans_unterminated_loads:
  "LoadAutomaton blank (Some dup_trans_unterminated) = Ok dup_trans_dfa"
  by (simp add: eval_simps dup_trans_unterminated_def dup_trans_header_def dup_trans_dfa_def
      fun_eq_iff)


lemma dup_trans_file_lines:
  "GetLines (fopen dup_trans_file)
     = ''p'' # ''p q'' # ''a'' # ''q'' # [''p a q''] @ ''p a p'' # []"
  by (simp add: GetLines.simps eval_simps dup_trans_file_def)

lemma bad_line_file_lines:
  "GetLines (fopen bad_line_file)
     = ''p'' # ''p q'' # ''a'' # ''q'' # [] @ ''z a q'' # [''q a p'']"
  by (simp add: GetLines.simps eval_simps bad_line_file_def)

lemma bad_then_dup_file_lines:
  "GetLines (fopen bad_then_dup_file)
     = [''p'', ''p q'', ''a'', ''q'', ''p a q'', ''z a q'', ''p a p'']"
  by (simp add: GetLines.simps eval_simps bad_then_dup_file_def)

lemma dup_trans_unterminated_lines:
  "GetLines (fopen dup_trans_unterminated) = [''p'', ''p q'', ''a'', ''q'', ''p a q'']"
  by (simp add: GetLines.simps eval_simps dup_trans_unterminated_def)


lemma short_file_lines: "GetLines (fopen short_file) = [''q0'', ''q0 q1'']"
  by (simp add: GetLines.simps eval_simps short_file_def)

lemma pq_words:
  "ReadWords ''p q'' = [''p'', ''q'']" "ReadWords ''a'' = [''a'']" "ReadWords ''q'' = [''q'']"
  "ReadWords ''q0 q1 q0'' = [''q0'', ''q1'', ''q0'']" "ReadWords ''q0'' = [''q0'']"
  "ReadWords ''q0 q1'' = [''q0'', ''q1'']" "ReadWords ''q0 q0'' = [''q0'', ''q0'']"
  by (simp_all add: eval_simps)

lemma pq_header_ok:
  "states_ok ''p'' ''p q''" "symbols_ok ''a''" "finals_ok ''p q'' ''q''"
  by (simp_all add: states_ok_def symbols_ok_def finals_ok_def pq_words MAX_STATES_def
      MAX_SYMBOLS_def)


lemma pq_resolve:
  "resolve (header_built blank ''p'' ''p q'' ''a'' ''q'') ''p a q'' = Some (0, 0, 1)"
  "resolve (header_built blank ''p'' ''p q'' ''a'' ''q'') ''p a p'' = Some (0, 0, 0)"
  "resolve (header_built blank ''p'' ''p q'' ''a'' ''q'') ''z a q'' = None"
  "sscanf_sss ''z a q'' = Some (''z'', ''a'', ''q'')"
  by (simp_all add: resolve_def StateToIdx_index_of TransitionToIdx_index_of pq_words
      sscanf_sss_def sscanf_s_def after_word_def isspace_def SP_def first_char_def)


lemma pq_valid:
  "valid_lines (header_built blank ''p'' ''p q'' ''a'' ''q'') [''p a q'']"
  "valid_lines (header_built blank ''p'' ''p q'' ''a'' ''q'') []"
  by (simp_all add: valid_lines_def pq_resolve)









section \<open>The properties of the specification, C1 to C10\<close>

text \<open>
  C1. If the automaton \<open>a\<close> was loaded and the input string has a character that is not
  among the symbols of \<open>a\<close>, \<open>ProcessString\<close> returns 2 (wrong symbol), wherever the
  character stands in the string and whatever the transitions before it are.
\<close>

theorem ProcessString_wrong_symbol:
  assumes "LoadAutomaton a0 path = Ok a" and "c \<in> set s" and "c \<notin> set (symbols a)"
  shows "ProcessString a s = Some 2"
proof -
  from assms(2,3) have "ProcessString_check a s" unfolding ProcessString_check_iff by blast
  then show ?thesis by (simp add: ProcessString_def)
qed

text \<open>
  On the automaton of \<open>partial_file\<close> and the string \<open>abz\<close>: the step from \<open>q\<close> on
  \<open>b\<close> has no transition, and the \<open>z\<close> after it still decides.
\<close>

theorem ProcessString_wrong_symbol_witness:
  "LoadAutomaton blank (Some partial_file) = Ok partial_dfa
   \<and> CHR ''z'' \<in> set ''abz'' \<and> CHR ''z'' \<notin> set (symbols partial_dfa)
   \<and> ProcessString partial_dfa ''abz'' = Some 2"
proof -
  have 1: "CHR ''z'' \<in> set ''abz''" by simp
  have 2: "CHR ''z'' \<notin> set (symbols partial_dfa)" by (simp add: partial_dfa_symbols)
  from ProcessString_wrong_symbol[OF partial_file_loads 1 2] partial_file_loads 1 2
  show ?thesis by blast
qed

text \<open>
  C2. On the empty string, \<open>ProcessString\<close> on a loaded automaton returns 0 (accepted)
  if the start state is a final state and 1 (rejected) otherwise, and the result does
  not depend on the transition table.
\<close>

theorem ProcessString_empty:
  assumes "LoadAutomaton a0 path = Ok a"
  shows "ProcessString a [] = Some (if startStateIndex a \<in> finalStates a then 0 else 1)
         \<and> ProcessString (a\<lparr>transitionTable := t\<rparr>) [] = ProcessString a []"
proof -
  from LoadAutomaton_wf[OF assms] have w: "wf_automaton a" .
  from ProcessString_wf[OF w, of "[]"]
  have "ProcessString a [] = Some (if startStateIndex a \<in> finalStates a then 0 else 1)"
    by simp
  moreover have "ProcessString (a\<lparr>transitionTable := t\<rparr>) [] = ProcessString a []"
    by (simp add: ProcessString_def)
  ultimately show ?thesis by blast
qed

theorem ProcessString_empty_witness:
  "LoadAutomaton blank (Some even_file) = Ok even_dfa
   \<and> startStateIndex even_dfa \<in> finalStates even_dfa
   \<and> ProcessString even_dfa [] = Some 0
   \<and> ProcessString (even_dfa\<lparr>transitionTable := []\<rparr>) [] = Some 0"
proof -
  have "startStateIndex even_dfa \<in> finalStates even_dfa"
    by (simp add: even_dfa_finalStates) (simp add: even_dfa_def)
  with ProcessString_empty[OF even_file_loads, of "[]"] even_file_loads
  show ?thesis by simp
qed

text \<open>
  C3. If the automaton was loaded, every character of the input is one of its symbols,
  and the run from the start state over the part \<open>pre\<close> of the input reaches a state
  \<open>q\<close> from which the next character \<open>c\<close> has no transition, then \<open>ProcessString\<close>
  returns 1 (rejected): a result, not a failure.
\<close>

theorem ProcessString_undefined_transition:
  assumes "LoadAutomaton a0 path = Ok a"
    and "\<forall>x \<in> set (pre @ c # post). x \<in> set (symbols a)"
    and "fold_delta a (startStateIndex a) pre = Some q"
    and "delta a q c = None"
  shows "ProcessString a (pre @ c # post) = Some 1"
proof -
  from LoadAutomaton_wf[OF assms(1)] have w: "wf_automaton a" .
  from assms(3,4) have "fold_delta a (startStateIndex a) (pre @ c # post) = None"
    by (simp add: fold_delta_append)
  with ProcessString_wf[OF w assms(2)] show ?thesis by simp
qed

text \<open>On the automaton of \<open>partial_file\<close> and the string \<open>aba\<close>: after \<open>a\<close> the state is
  \<open>q\<close>, which has no transition on \<open>b\<close>.\<close>

theorem ProcessString_undefined_transition_witness:
  "LoadAutomaton blank (Some partial_file) = Ok partial_dfa
   \<and> set (''a'' @ CHR ''b'' # ''a'') \<subseteq> set (symbols partial_dfa)
   \<and> fold_delta partial_dfa (startStateIndex partial_dfa) ''a'' = Some 1
   \<and> delta partial_dfa 1 (CHR ''b'') = None
   \<and> ProcessString partial_dfa (''a'' @ CHR ''b'' # ''a'') = Some 1"
proof -
  have 1: "\<forall>x \<in> set (''a'' @ CHR ''b'' # ''a''). x \<in> set (symbols partial_dfa)"
    by (simp add: partial_dfa_symbols)
  have 2: "fold_delta partial_dfa (startStateIndex partial_dfa) ''a'' = Some 1"
    by (simp add: delta_def partial_dfa_def table_get_def TransitionToIdx_def
        TransitionToIdx_from.simps)
  have 3: "delta partial_dfa 1 (CHR ''b'') = None"
    by (simp add: delta_def partial_dfa_def table_get_def TransitionToIdx_def
        TransitionToIdx_from.simps)
  from ProcessString_undefined_transition[OF partial_file_loads 1 2 3]
    partial_file_loads 1 2 3
  show ?thesis by blast
qed

text \<open>
  C4. If the automaton was loaded and every character of the input is one of its
  symbols, \<open>ProcessString\<close> returns a result, which is 0 (accepted) or 1 (rejected) and
  never 2, and it is 0 exactly when the run of the transition function from the start
  state over the whole input is defined and ends in a final state.
\<close>

theorem ProcessString_total:
  assumes "LoadAutomaton a0 path = Ok a"
    and "\<forall>c \<in> set s. c \<in> set (symbols a)"
  shows "ProcessString a s =
           Some (if \<exists>q. fold_delta a (startStateIndex a) s = Some q \<and> q \<in> finalStates a
                 then 0 else 1)"
proof -
  from LoadAutomaton_wf[OF assms(1)] have w: "wf_automaton a" .
  from ProcessString_wf[OF w assms(2)] show ?thesis by (auto split: option.splits)
qed

text \<open>On the automaton of \<open>even_file\<close>: \<open>11\<close> is accepted and \<open>1\<close> is rejected.\<close>

theorem ProcessString_total_witness:
  "LoadAutomaton blank (Some even_file) = Ok even_dfa
   \<and> set ''11'' \<subseteq> set (symbols even_dfa)
   \<and> fold_delta even_dfa (startStateIndex even_dfa) ''11'' = Some 0
   \<and> 0 \<in> finalStates even_dfa
   \<and> ProcessString even_dfa ''11'' = Some 0"
proof -
  have 1: "\<forall>c \<in> set ''11''. c \<in> set (symbols even_dfa)"
    by (simp add: even_dfa_symbols)
  have 2: "fold_delta even_dfa (startStateIndex even_dfa) ''11'' = Some 0"
    by (simp add: delta_def even_dfa_def table_get_def TransitionToIdx_def
        TransitionToIdx_from.simps)
  have 3: "0 \<in> finalStates even_dfa" by (simp add: even_dfa_finalStates)
  from ProcessString_total[OF even_file_loads 1] 2 3
  have "ProcessString even_dfa ''11'' = Some 0" by simp
  with even_file_loads 1 2 3 show ?thesis by blast
qed

text \<open>
  C5. The specification has the line source still produce a final line that has no line
  terminator. In the code, \<open>fgets\<close> sets the end-of-file indicator while it reads such a
  line, and \<open>GetLine\<close> returns NULL whenever the indicator is set: on the two-line
  stream \<open>x\<close>, \<open>ab\<close> without a final newline, the first call yields \<open>x\<close> and the
  second call yields NULL, so the line \<open>ab\<close> is lost.
\<close>

theorem GetLine_drops_unterminated_last_line:
  "GetLine (fopen (''x'' @ [NL] @ ''ab'')) = (Some ''x'', \<lparr>unread = ''ab'', eof = False\<rparr>)
   \<and> fst (GetLine \<lparr>unread = ''ab'', eof = False\<rparr>) = None"
  by (simp add: GetLine_def GetLine_loop.simps fgets_def fopen_def feof_def c_str_def
      first_char_def MAX_LINE_LENGTH_def NL_def NUL_def HASH_def)

text \<open>
  C6. The specification has \<open>ReadWord\<close>, called until it returns NULL, produce the
  white-space delimited words of the line, each once. In the code, \<open>ReadWord\<close> reads
  the word after the leading white space but advances the pointer from the start of the
  string: on a line that starts with a space the pointer only moves over the spaces, and
  the first word is read a second time. The pointer also stops at spaces only, so that
  a word after a tab is never produced.
\<close>

theorem ReadWords_leading_space_repeats_word:
  "ReadWords '' a b'' = [''a'', ''a'', ''b'']
   \<and> ReadWords (''a'' @ [CHR 0x09] @ ''b'') = [''a'']"
  by (simp add: ReadWords.simps ReadWord_def sscanf_s_def isspace_def SP_def)

text \<open>
  C7. The specification has the caller unable to observe a partly built automaton after
  a load that fails. The loader writes the caller's structure in place and does not
  reset it when it fails: on the file that ends after the line of the state names, it
  returns 1 and leaves in the structure the two state names and their count.
\<close>

theorem LoadAutomaton_failure_keeps_partial_state:
  "LoadAutomaton blank (Some short_file) = Failed NoSymbols short_dfa
   \<and> statesNum blank = 0 \<and> statesNum short_dfa = 2
   \<and> names short_dfa = [''q0'', ''q1'']
   \<and> short_dfa \<noteq> blank"
proof -
  have 1: "statesNum blank = 0" "statesNum short_dfa = 2"
    by (simp_all add: short_dfa_def blank_def)
  have 2: "names short_dfa = [''q0'', ''q1'']"
    by (simp add: names_def short_dfa_def upto.simps)
  from 1 have "short_dfa \<noteq> blank" by auto
  with 1 2 short_file_fails show ?thesis by simp
qed

text \<open>
  C7, as the code has it. When the load fails, \<open>LoadAutomaton\<close> returns 1 and \<open>main\<close>
  exits with the status 1 without processing any string, whatever the strings file is.
  The loader has stopped at the first error, and the caller's structure holds what was
  stored before that error, no more and no less. With the lines that \<open>GetLine\<close> yields
  from the file, the failure is one of these:
  \<^item> the file cannot be opened, or it yields no line or one line: only the two counters
    are reset;
  \<^item> the first line is not among the words of the second, or the words of the second
    line fit and there is no third line: the state names are stored and the start index
    is set (to -1 when the start state is not listed);
  \<^item> a symbol of the third line occurs before in it: the symbols before its second
    occurrence are stored as well;
  \<^item> the third line is accepted and there is no fourth line: the flags of the states
    are cleared as well;
  \<^item> a word of the fourth line is no state name, or names a state that an earlier word
    of the line names: the states that the words before it name are marked as well, the
    words before it being state names, each once;
  \<^item> the first four lines are accepted, the transition lines \<open>pre\<close> resolve and give
    each pair once, and the next line has three words and does not resolve, or resolves
    and gives a pair that a line of \<open>pre\<close> gives: the table holds the transitions of
    \<open>pre\<close> and nothing of the lines after them.
\<close>

theorem LoadAutomaton_failure:
  assumes "LoadAutomaton a0 path = Failed m a"
  shows "return_code (LoadAutomaton a0 path) = Some 1
     \<and> main a0 path strings = Some (1, [])
     \<and> ((path = None \<and> m = CannotOpen \<and> a = zeroed a0)
        \<or> (\<exists>bytes. path = Some bytes \<and> GetLines (fopen bytes) = []
              \<and> m = NoInitialState \<and> a = zeroed a0)
        \<or> (\<exists>bytes l1. path = Some bytes \<and> GetLines (fopen bytes) = [l1]
              \<and> m = NoStates \<and> a = zeroed a0)
        \<or> (\<exists>bytes l1 l2 r. path = Some bytes \<and> GetLines (fopen bytes) = l1 # l2 # r
              \<and> l1 \<notin> set (ReadWords l2)
              \<and> m = StartNotListed \<and> a = start_set a0 l1 l2)
        \<or> (\<exists>bytes l1 l2. path = Some bytes \<and> GetLines (fopen bytes) = [l1, l2]
              \<and> states_ok l1 l2
              \<and> m = NoSymbols \<and> a = start_set a0 l1 l2)
        \<or> (\<exists>bytes l1 l2 l3 r pre c post.
              path = Some bytes \<and> GetLines (fopen bytes) = l1 # l2 # l3 # r
              \<and> states_ok l1 l2
              \<and> map first_char (ReadWords l3) = pre @ c # post
              \<and> distinct pre \<and> c \<in> set pre
              \<and> m = SymbolTwice \<and> a = symbols_stored (start_set a0 l1 l2) pre)
        \<or> (\<exists>bytes l1 l2 l3. path = Some bytes \<and> GetLines (fopen bytes) = [l1, l2, l3]
              \<and> states_ok l1 l2 \<and> symbols_ok l3
              \<and> m = NoFinishStates
              \<and> a = finals_marked (symbols_stored (start_set a0 l1 l2)
                        (map first_char (ReadWords l3))) [])
        \<or> (\<exists>bytes l1 l2 l3 l4 r pre w post.
              path = Some bytes \<and> GetLines (fopen bytes) = l1 # l2 # l3 # l4 # r
              \<and> states_ok l1 l2 \<and> symbols_ok l3
              \<and> ReadWords l4 = pre @ w # post
              \<and> set pre \<subseteq> set (ReadWords l2) \<and> distinct pre
              \<and> w \<notin> set (ReadWords l2)
              \<and> m = FinishNotListed
              \<and> a = finals_marked (symbols_stored (start_set a0 l1 l2)
                        (map first_char (ReadWords l3))) pre)
        \<or> (\<exists>bytes l1 l2 l3 l4 r pre w post.
              path = Some bytes \<and> GetLines (fopen bytes) = l1 # l2 # l3 # l4 # r
              \<and> states_ok l1 l2 \<and> symbols_ok l3
              \<and> ReadWords l4 = pre @ w # post
              \<and> set pre \<subseteq> set (ReadWords l2) \<and> distinct pre
              \<and> w \<in> set pre
              \<and> m = DuplicatedFinish
              \<and> a = finals_marked (symbols_stored (start_set a0 l1 l2)
                        (map first_char (ReadWords l3))) pre)
        \<or> (\<exists>bytes l1 l2 l3 l4 pre l post.
              path = Some bytes
              \<and> GetLines (fopen bytes) = l1 # l2 # l3 # l4 # pre @ l # post
              \<and> states_ok l1 l2 \<and> symbols_ok l3 \<and> finals_ok l2 l4
              \<and> valid_lines (header_built a0 l1 l2 l3 l4) pre
              \<and> sscanf_sss l \<noteq> None \<and> resolve (header_built a0 l1 l2 l3 l4) l = None
              \<and> m = InvalidTransition
              \<and> a = transitions_stored (header_built a0 l1 l2 l3 l4) pre)
        \<or> (\<exists>bytes l1 l2 l3 l4 pre l post.
              path = Some bytes
              \<and> GetLines (fopen bytes) = l1 # l2 # l3 # l4 # pre @ l # post
              \<and> states_ok l1 l2 \<and> symbols_ok l3 \<and> finals_ok l2 l4
              \<and> valid_lines (header_built a0 l1 l2 l3 l4) pre
              \<and> resolve (header_built a0 l1 l2 l3 l4) l \<noteq> None
              \<and> pair_of (header_built a0 l1 l2 l3 l4) l
                    \<in> pair_of (header_built a0 l1 l2 l3 l4) ` set pre
              \<and> m = DuplicateTransition
              \<and> a = transitions_stored (header_built a0 l1 l2 l3 l4) pre))"
    (is "?R \<and> ?M \<and> ?D")
proof (intro conjI)
  show ?R using assms by (simp add: return_code_def)
  show ?M using assms by (simp add: main_def)
  show ?D
  proof (cases path)
    case None
    with assms have "m = CannotOpen \<and> a = zeroed a0"
      by (simp add: LoadAutomaton_def LoadHeader_def zeroed_def)
    with None show ?thesis by simp
  next
    case (Some bytes)
    note f = assms[unfolded Some]
    from LoadHeader_cases[of bytes a0]
    consider
      (c1) "GetLines (fopen bytes) = []" "m = NoInitialState" "a = zeroed a0"
    | (c2) l1 where "GetLines (fopen bytes) = [l1]" "m = NoStates" "a = zeroed a0"
    | (c4) l1 l2 r where "GetLines (fopen bytes) = l1 # l2 # r" "l1 \<notin> set (ReadWords l2)"
        "m = StartNotListed" "a = start_set a0 l1 l2"
    | (c5) l1 l2 where "GetLines (fopen bytes) = [l1, l2]" "states_ok l1 l2"
        "m = NoSymbols" "a = start_set a0 l1 l2"
    | (c6) l1 l2 l3 r pre c post where "GetLines (fopen bytes) = l1 # l2 # l3 # r"
        "states_ok l1 l2" "map first_char (ReadWords l3) = pre @ c # post"
        "distinct pre" "c \<in> set pre"
        "m = SymbolTwice" "a = symbols_stored (start_set a0 l1 l2) pre"
    | (c8) l1 l2 l3 where "GetLines (fopen bytes) = [l1, l2, l3]"
        "states_ok l1 l2" "symbols_ok l3"
        "m = NoFinishStates" "a = header_built a0 l1 l2 l3 []"
    | (c9) l1 l2 l3 l4 r pre w post where "GetLines (fopen bytes) = l1 # l2 # l3 # l4 # r"
        "states_ok l1 l2" "symbols_ok l3" "ReadWords l4 = pre @ w # post"
        "set pre \<subseteq> set (ReadWords l2)" "distinct pre" "w \<notin> set (ReadWords l2)"
        "m = FinishNotListed"
        "a = finals_marked (symbols_stored (start_set a0 l1 l2)
               (map first_char (ReadWords l3))) pre"
    | (c10) l1 l2 l3 l4 r pre w post where "GetLines (fopen bytes) = l1 # l2 # l3 # l4 # r"
        "states_ok l1 l2" "symbols_ok l3" "ReadWords l4 = pre @ w # post"
        "set pre \<subseteq> set (ReadWords l2)" "distinct pre" "w \<in> set pre"
        "m = DuplicatedFinish"
        "a = finals_marked (symbols_stored (start_set a0 l1 l2)
               (map first_char (ReadWords l3))) pre"
    | (c11) l1 l2 l3 l4 ts where "GetLines (fopen bytes) = l1 # l2 # l3 # l4 # ts"
        "states_ok l1 l2" "symbols_ok l3" "finals_ok l2 l4"
      apply (elim disjE exE conjE)
      using f by (simp_all add: LoadAutomaton_def)
    then show ?thesis
    proof cases
      case c1
      with Some show ?thesis
        apply - apply (rule disjI2, rule disjI1) by simp
    next
      case c2
      with Some show ?thesis
        apply - apply (rule disjI2, rule disjI2, rule disjI1) by simp
    next
      case c4
      with Some show ?thesis
        apply - apply (rule disjI2, rule disjI2, rule disjI2, rule disjI1) by simp
    next
      case c5
      with Some show ?thesis
        apply - apply (rule disjI2, rule disjI2, rule disjI2, rule disjI2, rule disjI1)
        by simp
    next
      case c6
      with Some show ?thesis
        apply - apply (rule disjI2, rule disjI2, rule disjI2, rule disjI2, rule disjI2,
            rule disjI1)
        by auto
    next
      case c8
      with Some show ?thesis
        apply - apply (rule disjI2, rule disjI2, rule disjI2, rule disjI2, rule disjI2,
            rule disjI2, rule disjI1)
        by (simp add: header_built_def ReadWords.simps[of "[]"] ReadWord_def sscanf_s_def)
    next
      case c9
      with Some show ?thesis
        apply - apply (rule disjI2, rule disjI2, rule disjI2, rule disjI2, rule disjI2,
            rule disjI2, rule disjI2, rule disjI1)
        by auto
    next
      case c10
      with Some show ?thesis
        apply - apply (rule disjI2, rule disjI2, rule disjI2, rule disjI2, rule disjI2,
            rule disjI2, rule disjI2, rule disjI2, rule disjI1)
        by auto
    next
      case c11
      from LoadAutomaton_lines_cases[OF c11, of a0]
      consider
        (inv) pre l post where "ts = pre @ l # post"
          "valid_lines (header_built a0 l1 l2 l3 l4) pre"
          "sscanf_sss l \<noteq> None" "resolve (header_built a0 l1 l2 l3 l4) l = None"
          "m = InvalidTransition" "a = transitions_stored (header_built a0 l1 l2 l3 l4) pre"
      | (dup) pre l post where "ts = pre @ l # post"
          "valid_lines (header_built a0 l1 l2 l3 l4) pre"
          "resolve (header_built a0 l1 l2 l3 l4) l \<noteq> None"
          "pair_of (header_built a0 l1 l2 l3 l4) l
             \<in> pair_of (header_built a0 l1 l2 l3 l4) ` set pre"
          "m = DuplicateTransition"
          "a = transitions_stored (header_built a0 l1 l2 l3 l4) pre"
        apply (elim disjE exE conjE)
        using f by simp_all
      then show ?thesis
      proof cases
        case inv
        with Some c11 show ?thesis
          apply - apply (rule disjI2, rule disjI2, rule disjI2, rule disjI2, rule disjI2,
              rule disjI2, rule disjI2, rule disjI2, rule disjI2, rule disjI1)
          apply (rule exI[of _ bytes], rule exI[of _ l1], rule exI[of _ l2], rule exI[of _ l3],
              rule exI[of _ l4], rule exI[of _ pre], rule exI[of _ l], rule exI[of _ post])
          by simp
      next
        case dup
        with Some c11 show ?thesis
          apply - apply (rule disjI2, rule disjI2, rule disjI2, rule disjI2, rule disjI2,
              rule disjI2, rule disjI2, rule disjI2, rule disjI2, rule disjI2)
          apply (rule exI[of _ bytes], rule exI[of _ l1], rule exI[of _ l2], rule exI[of _ l3],
              rule exI[of _ l4], rule exI[of _ pre], rule exI[of _ l], rule exI[of _ post])
          by simp
      qed
    qed
  qed
qed

text \<open>
  On the file whose first transition line names the state \<open>z\<close>, which is not listed,
  and whose second transition line is valid: the table holds no transition. On the file
  that ends after the state names, and on a file that cannot be opened.
\<close>

theorem LoadAutomaton_failure_witness:
  "LoadAutomaton blank (Some bad_line_file) = Failed InvalidTransition dup_trans_header
   \<and> dup_trans_header = transitions_stored (header_built blank ''p'' ''p q'' ''a'' ''q'') []
   \<and> transitionTable dup_trans_header = [[- 1], [- 1]]
   \<and> return_code (LoadAutomaton blank (Some bad_line_file)) = Some 1
   \<and> main blank (Some bad_line_file) (Some (''a'' @ [NL])) = Some (1, [])
   \<and> LoadAutomaton blank (Some short_file) = Failed NoSymbols short_dfa
   \<and> short_dfa = start_set blank ''q0'' ''q0 q1''
   \<and> main blank (Some short_file) (Some (''a'' @ [NL])) = Some (1, [])
   \<and> LoadAutomaton even_dfa None = Failed CannotOpen (zeroed even_dfa)
   \<and> main even_dfa None (Some (''a'' @ [NL])) = Some (1, [])"
proof -
  note a = LoadAutomaton_failure[OF bad_line_file_fails, of "Some (''a'' @ [NL])"]
  note b = LoadAutomaton_failure[OF short_file_fails, of "Some (''a'' @ [NL])"]
  note c = LoadAutomaton_failure[OF no_file_fails, of "Some (''a'' @ [NL])"]
  have 1: "dup_trans_header = transitions_stored (header_built blank ''p'' ''p q'' ''a'' ''q'') []"
    using a
    by (auto simp: bad_line_file_lines Cons_eq_append_conv valid_lines_def pq_resolve)
  have 2: "transitionTable dup_trans_header = [[- 1], [- 1]]"
    by (simp add: dup_trans_header_def)
  have 3: "short_dfa = start_set blank ''q0'' ''q0 q1''"
    using b by (auto simp: short_file_lines)
  have 4: "LoadAutomaton even_dfa None = Failed CannotOpen (zeroed even_dfa)"
    using c no_file_fails by simp
  from a b c 1 2 3 4 bad_line_file_fails short_file_fails show ?thesis by simp
qed

text \<open>
  C8. The specification has every file whose transition section gives a transition for
  the same resolved pair (from, symbol) twice fail with the message of the duplicate
  transition. The loader reports the first error only: on the file that gives the
  transition from \<open>p\<close> on \<open>a\<close> twice, with a line between the two that names a state
  that is not listed, it fails with the message of the invalid transition. And the line
  source does not yield a last line that no newline ends: when the second of the two
  lines is such a last line, the file loads, with the transition of the first line.
\<close>

theorem duplicate_transition_not_reported:
  "GetLines (fopen bad_then_dup_file)
     = [''p'', ''p q'', ''a'', ''q'', ''p a q'', ''z a q'', ''p a p'']
   \<and> pair_of (header_built blank ''p'' ''p q'' ''a'' ''q'') ''p a q'' = Some (0, 0)
   \<and> pair_of (header_built blank ''p'' ''p q'' ''a'' ''q'') ''p a p'' = Some (0, 0)
   \<and> LoadAutomaton blank (Some bad_then_dup_file) = Failed InvalidTransition dup_trans_dfa
   \<and> dup_trans_unterminated @ [NL] = dup_trans_file
   \<and> GetLines (fopen dup_trans_unterminated) = [''p'', ''p q'', ''a'', ''q'', ''p a q'']
   \<and> LoadAutomaton blank (Some dup_trans_unterminated) = Ok dup_trans_dfa
   \<and> return_code (LoadAutomaton blank (Some dup_trans_unterminated)) = Some 0"
  using bad_then_dup_file_lines bad_then_dup_file_fails dup_trans_unterminated_loads
    dup_trans_unterminated_lines
  by (simp add: pair_of_def pq_resolve return_code_def dup_trans_unterminated_def
      dup_trans_file_def)

text \<open>
  C8, as the code has it. Take a file from which \<open>GetLine\<close> yields four lines that the
  loader accepts, then transition lines \<open>pre\<close> that resolve and give each pair once,
  then a line \<open>l\<close> that gives a transition for the (from, symbol) pair that a line \<open>l'\<close>
  of \<open>pre\<close> has given. Then \<open>LoadAutomaton\<close> fails with the message of the duplicate
  transition; the structure holds the transitions of \<open>pre\<close>, so that the entry of the
  pair is still the target of \<open>l'\<close>; and no automaton is produced: the function returns
  1, and \<open>main\<close> exits with the status 1 without processing any string.
\<close>

theorem duplicate_transition_fails:
  assumes "GetLines (fopen bytes) = l1 # l2 # l3 # l4 # pre @ l # post"
    and "states_ok l1 l2" and "symbols_ok l3" and "finals_ok l2 l4"
    and "valid_lines (header_built a0 l1 l2 l3 l4) pre"
    and "l' \<in> set pre"
    and "resolve (header_built a0 l1 l2 l3 l4) l' = Some (i, j, k')"
    and "resolve (header_built a0 l1 l2 l3 l4) l = Some (i, j, k)"
  shows "LoadAutomaton a0 (Some bytes)
           = Failed DuplicateTransition (transitions_stored (header_built a0 l1 l2 l3 l4) pre)
     \<and> table_get (transitionTable (transitions_stored (header_built a0 l1 l2 l3 l4) pre)) i j
           = Some k'
     \<and> return_code (LoadAutomaton a0 (Some bytes)) = Some 1
     \<and> main a0 (Some bytes) strings = Some (1, [])"
proof -
  let ?A = "header_built a0 l1 l2 l3 l4"
  have "LoadAutomaton a0 (Some bytes) = LoadLines (transitions_stored ?A []) (pre @ l # post)"
    using assms(1-4) by (rule LoadAutomaton_valid_header)
  also have "\<dots> = Failed DuplicateTransition
                    (transitions_stored (transitions_stored ?A []) pre)"
    using assms(5-8)
    by (intro LoadLines_duplicate[OF header_table_ready, of _ _ _ _ _ _ l' i j k' l k]) simp_all
  finally have 1: "LoadAutomaton a0 (Some bytes)
      = Failed DuplicateTransition (transitions_stored ?A pre)" by simp
  have 2: "table_get (transitionTable (transitions_stored ?A pre)) i j = Some k'"
    using assms(5-7) by (rule table_get_stored)
  from 1 2 show ?thesis by (simp add: return_code_def main_def)
qed

text \<open>On the file that gives the transition from \<open>p\<close> on \<open>a\<close> twice.\<close>

theorem duplicate_transition_fails_witness:
  "LoadAutomaton blank (Some dup_trans_file) = Failed DuplicateTransition dup_trans_dfa
   \<and> dup_trans_dfa
       = transitions_stored (header_built blank ''p'' ''p q'' ''a'' ''q'') [''p a q'']
   \<and> table_get (transitionTable dup_trans_dfa) 0 0 = Some 1
   \<and> return_code (LoadAutomaton blank (Some dup_trans_file)) = Some 1
   \<and> main blank (Some dup_trans_file) (Some (''a'' @ [NL])) = Some (1, [])"
  using duplicate_transition_fails[OF dup_trans_file_lines pq_header_ok pq_valid(1) _
      pq_resolve(1,2), of "Some (''a'' @ [NL])"] dup_trans_file_fails
  by auto




text \<open>
  C10. On a loaded automaton, \<open>ProcessString\<close> returns 0, 1 or 2 and nothing else; so
  the loop of \<open>main\<close> over the lines of any strings file runs to its end and never
  prints the line of the result 3 (unknown error).
\<close>

theorem ProcessString_three_results:
  assumes "LoadAutomaton a0 path = Ok a"
  shows "ProcessString a s \<in> {Some 0, Some 1, Some 2}
         \<and> (\<exists>out. main_loop a f = Some out \<and> (\<forall>l. UNKNOWN_ERROR l \<notin> set out))"
  using ProcessString_results_wf[OF LoadAutomaton_wf[OF assms]]
    main_loop_wf[OF LoadAutomaton_wf[OF assms]] by blast

theorem ProcessString_three_results_witness:
  "LoadAutomaton blank (Some even_file) = Ok even_dfa
   \<and> ProcessString even_dfa ''102'' = Some 2
   \<and> main_loop even_dfa (fopen (''11'' @ [NL] @ ''1'' @ [NL] @ ''102'' @ [NL]))
       = Some [ACCEPTED_LINE ''11'', REJECTED_LINE ''1'', WRONG_SYMBOL ''102'']"
proof -
  let ?f = "fopen (''11'' @ [NL] @ ''1'' @ [NL] @ ''102'' @ [NL])"
  from ProcessString_three_results[OF even_file_loads, of "''102''" ?f]
  have r: "ProcessString even_dfa ''102'' \<in> {Some 0, Some 1, Some 2}"
    and "\<exists>out. main_loop even_dfa ?f = Some out" by blast+
  then obtain out where out: "main_loop even_dfa ?f = Some out" by blast
  have "ProcessString even_dfa ''102'' \<noteq> Some 0" "ProcessString even_dfa ''102'' \<noteq> Some 1"
    by (simp_all add: ProcessString_def even_dfa_def TransitionToIdx_def
        TransitionToIdx_from.simps)
  with r have 1: "ProcessString even_dfa ''102'' = Some 2" by auto
  have "main_loop even_dfa ?f
       = Some [ACCEPTED_LINE ''11'', REJECTED_LINE ''1'', WRONG_SYMBOL ''102'']"
    using out
    by (simp add: main_loop.simps report_def ProcessString_def even_dfa_def TransitionToIdx_def
        TransitionToIdx_from.simps table_get_def MAX_STATES_def GetLine_def GetLine_loop.simps
        fgets_def fopen_def feof_def c_str_def first_char_def MAX_LINE_LENGTH_def NL_def
        NUL_def HASH_def)
  with even_file_loads 1 show ?thesis by blast
qed

end
